theory Spec2Isabelle
  imports Main "HOL-Library.Word" "HOL-Library.AList"
begin

section \<open>Python values used by the library\<close>

text \<open>
  The exceptions the library can raise: \<open>ValueError\<close> is raised by the facade's own bound
  checks (the specification calls it OutOfRange, and InvalidConfiguration at construction),
  \<open>KeyError\<close> by a dictionary lookup of a missing key, \<open>IndexError\<close> by a NumPy index
  outside the array.
\<close>

datatype error = ValueError | KeyError | IndexError

text \<open>
  A Python \<open>set\<close> of integers is modelled by the duplicate-free list of its elements:
  \<open>s.add(x)\<close> is \<open>set_add\<close>, \<open>x in s\<close> is membership in the list, \<open>len(s)\<close> its length and
  \<open>list(s)\<close> the list itself. The order in which CPython iterates a set is not fixed by the
  language; the model takes insertion order. No result below rests on that choice: the
  levels of breadth-first search are shown to depend on the neighbour sets only, and
  depth-first search sorts the neighbours before it uses them.
\<close>

definition set_add :: "int \<Rightarrow> int list \<Rightarrow> int list" where
  "set_add x xs = (if x \<in> set xs then xs else xs @ [x])"

text \<open>
  A Python \<open>dict\<close> that is iterated (\<open>parents\<close>, \<open>levels\<close>) is an association list in
  insertion order: \<open>d[k]\<close> raises \<open>KeyError\<close> on a missing key, \<open>d[k] = v\<close> overwrites in
  place or appends a new key.
\<close>

definition dict_get :: "('k \<times> 'v) list \<Rightarrow> 'k \<Rightarrow> error + 'v" where
  "dict_get d k = (case map_of d k of None \<Rightarrow> Inl KeyError | Some x \<Rightarrow> Inr x)"

definition dict_set :: "'k \<Rightarrow> 'v \<Rightarrow> ('k \<times> 'v) list \<Rightarrow> ('k \<times> 'v) list" where
  "dict_set k v d = AList.update k v d"

definition dict_values :: "('k \<times> 'v) list \<Rightarrow> 'v list" where
  "dict_values d = map snd d"

text \<open>\<open>range(1, n + 1)\<close>.\<close>

definition range1 :: "int \<Rightarrow> int list" where
  "range1 n = [1..n]"

section \<open>representations.py\<close>

subsection \<open>AdjacencyList\<close>

record adjacency_list =
  al_num_vertices :: int
  al_adj :: "int \<rightharpoonup> int list"
  al_edge_count :: int

definition AdjacencyList_init :: "int \<Rightarrow> adjacency_list" where
  "AdjacencyList_init n =
     \<lparr> al_num_vertices = n,
       al_adj = (\<lambda>i. if 1 \<le> i \<and> i \<le> n then Some [] else None),
       al_edge_count = 0 \<rparr>"

text \<open>
  A state-changing method returns the exception raised, if any, together with the state
  the object is left in.
\<close>

definition al_add_edge :: "int \<Rightarrow> int \<Rightarrow> adjacency_list \<Rightarrow> error option \<times> adjacency_list" where
  "al_add_edge u v r =
     (case al_adj r u of
        None \<Rightarrow> (Some KeyError, r)
      | Some su \<Rightarrow>
          if v \<notin> set su then
            (let r1 = r\<lparr> al_adj := (al_adj r)(u \<mapsto> set_add v su) \<rparr>
             in case al_adj r1 v of
                  None \<Rightarrow> (Some KeyError, r1)
                | Some sv \<Rightarrow>
                    (None, r1\<lparr> al_adj := (al_adj r1)(v \<mapsto> set_add u sv),
                               al_edge_count := al_edge_count r1 + 1 \<rparr>))
          else (None, r))"

definition al_get_neighbors :: "adjacency_list \<Rightarrow> int \<Rightarrow> error + int list" where
  "al_get_neighbors r v = (case al_adj r v of None \<Rightarrow> Inl KeyError | Some s \<Rightarrow> Inr s)"

subsection \<open>AdjacencyMatrix\<close>

text \<open>
  The NumPy array of \<open>uint8\<close> is a list of rows of bytes. An index \<open>i\<close> on an axis of
  length \<open>n\<close> is valid from \<open>-n\<close> to \<open>n - 1\<close>, a negative one counting from the end.
\<close>

record adjacency_matrix =
  am_num_vertices :: int
  am_matrix :: "8 word list list"
  am_edge_count :: int

definition np_index :: "nat \<Rightarrow> int \<Rightarrow> error + nat" where
  "np_index n i =
     (if 0 \<le> i \<and> i < int n then Inr (nat i)
      else if - int n \<le> i \<and> i < 0 then Inr (nat (i + int n))
      else Inl IndexError)"

definition mat_row :: "8 word list list \<Rightarrow> int \<Rightarrow> error + 8 word list" where
  "mat_row m i = (case np_index (length m) i of Inl e \<Rightarrow> Inl e | Inr a \<Rightarrow> Inr (m ! a))"

definition mat_get :: "8 word list list \<Rightarrow> int \<Rightarrow> int \<Rightarrow> error + 8 word" where
  "mat_get m i j =
     (case np_index (length m) i of
        Inl e \<Rightarrow> Inl e
      | Inr a \<Rightarrow>
          (case np_index (length (m ! a)) j of
             Inl e \<Rightarrow> Inl e
           | Inr b \<Rightarrow> Inr (m ! a ! b)))"

definition mat_set :: "8 word list list \<Rightarrow> int \<Rightarrow> int \<Rightarrow> 8 word \<Rightarrow> error + 8 word list list" where
  "mat_set m i j x =
     (case np_index (length m) i of
        Inl e \<Rightarrow> Inl e
      | Inr a \<Rightarrow>
          (case np_index (length (m ! a)) j of
             Inl e \<Rightarrow> Inl e
           | Inr b \<Rightarrow> Inr (m[a := (m ! a)[b := x]])))"

text \<open>\<open>np.zeros\<close> refuses a negative dimension with \<open>ValueError\<close>.\<close>

definition AdjacencyMatrix_init :: "int \<Rightarrow> error + adjacency_matrix" where
  "AdjacencyMatrix_init n =
     (if n < 0 then Inl ValueError
      else Inr \<lparr> am_num_vertices = n,
                 am_matrix = replicate (nat n) (replicate (nat n) 0),
                 am_edge_count = 0 \<rparr>)"

definition am_add_edge :: "int \<Rightarrow> int \<Rightarrow> adjacency_matrix \<Rightarrow> error option \<times> adjacency_matrix" where
  "am_add_edge u v r =
     (let u_idx = u - 1; v_idx = v - 1
      in case mat_get (am_matrix r) u_idx v_idx of
           Inl e \<Rightarrow> (Some e, r)
         | Inr x \<Rightarrow>
             if x = 0 then
               (case mat_set (am_matrix r) u_idx v_idx 1 of
                  Inl e \<Rightarrow> (Some e, r)
                | Inr m1 \<Rightarrow>
                    (case mat_set m1 v_idx u_idx 1 of
                       Inl e \<Rightarrow> (Some e, r\<lparr> am_matrix := m1 \<rparr>)
                     | Inr m2 \<Rightarrow>
                         (None, r\<lparr> am_matrix := m2, am_edge_count := am_edge_count r + 1 \<rparr>)))
             else (None, r))"

text \<open>\<open>np.nonzero(row)[0] + 1\<close>: the positions of the non-zero bytes, ascending, shifted by one.\<close>

definition nonzero_plus1 :: "8 word list \<Rightarrow> int list" where
  "nonzero_plus1 row = map (\<lambda>j. int j + 1) (filter (\<lambda>j. row ! j \<noteq> 0) [0..<length row])"

definition am_get_neighbors :: "adjacency_matrix \<Rightarrow> int \<Rightarrow> error + int list" where
  "am_get_neighbors r v =
     (let v_idx = v - 1
      in case mat_row (am_matrix r) v_idx of
           Inl e \<Rightarrow> Inl e
         | Inr row \<Rightarrow> Inr (nonzero_plus1 row))"

subsection \<open>The polymorphic contract\<close>

datatype representation = Sparse adjacency_list | Dense adjacency_matrix

datatype representation_cls = AdjacencyList | AdjacencyMatrix

definition representation_init :: "representation_cls \<Rightarrow> int \<Rightarrow> error + representation" where
  "representation_init cls n =
     (case cls of
        AdjacencyList \<Rightarrow> Inr (Sparse (AdjacencyList_init n))
      | AdjacencyMatrix \<Rightarrow>
          (case AdjacencyMatrix_init n of Inl e \<Rightarrow> Inl e | Inr r \<Rightarrow> Inr (Dense r)))"

fun rep_add_edge :: "int \<Rightarrow> int \<Rightarrow> representation \<Rightarrow> error option \<times> representation" where
  "rep_add_edge u v (Sparse r) = (case al_add_edge u v r of (e, r') \<Rightarrow> (e, Sparse r'))"
| "rep_add_edge u v (Dense r) = (case am_add_edge u v r of (e, r') \<Rightarrow> (e, Dense r'))"

fun rep_get_neighbors :: "representation \<Rightarrow> int \<Rightarrow> error + int list" where
  "rep_get_neighbors (Sparse r) v = al_get_neighbors r v"
| "rep_get_neighbors (Dense r) v = am_get_neighbors r v"

fun rep_edge_count :: "representation \<Rightarrow> int" where
  "rep_edge_count (Sparse r) = al_edge_count r"
| "rep_edge_count (Dense r) = am_edge_count r"

section \<open>graph.py\<close>

definition is_vertex_within_bounds :: "int \<Rightarrow> int \<Rightarrow> bool" where
  "is_vertex_within_bounds v num_vertices \<longleftrightarrow> 1 \<le> v \<and> v \<le> num_vertices"

record graph =
  num_vertices :: int
  representation :: representation
  all_degrees_cache :: "int list option"

definition Graph_init :: "int \<Rightarrow> representation_cls \<Rightarrow> error + graph" where
  "Graph_init n cls =
     (if n \<le> 0 then Inl ValueError
      else case representation_init cls n of
             Inl e \<Rightarrow> Inl e
           | Inr r \<Rightarrow> Inr \<lparr> num_vertices = n, representation = r, all_degrees_cache = None \<rparr>)"

definition invalidate_degree_cache :: "graph \<Rightarrow> graph" where
  "invalidate_degree_cache g = g\<lparr> all_degrees_cache := None \<rparr>"

definition vertex_count :: "graph \<Rightarrow> int" where
  "vertex_count g = num_vertices g"

definition edge_count :: "graph \<Rightarrow> int" where
  "edge_count g = rep_edge_count (representation g)"

definition add_edge :: "int \<Rightarrow> int \<Rightarrow> graph \<Rightarrow> error option \<times> graph" where
  "add_edge u v g =
     (if \<not> (is_vertex_within_bounds u (num_vertices g) \<and> is_vertex_within_bounds v (num_vertices g))
      then (Some ValueError, g)
      else case rep_add_edge u v (representation g) of
             (Some e, r') \<Rightarrow> (Some e, g\<lparr> representation := r' \<rparr>)
           | (None, r') \<Rightarrow> (None, invalidate_degree_cache (g\<lparr> representation := r' \<rparr>)))"

definition get_neighbors :: "graph \<Rightarrow> int \<Rightarrow> error + int list" where
  "get_neighbors g v =
     (if \<not> is_vertex_within_bounds v (num_vertices g) then Inl ValueError
      else rep_get_neighbors (representation g) v)"

subsection \<open>Degrees\<close>

text \<open>The list comprehension over \<open>range(1, n + 1)\<close> stops at the first exception.\<close>

fun degrees_of :: "graph \<Rightarrow> int list \<Rightarrow> error + int list" where
  "degrees_of g [] = Inr []"
| "degrees_of g (i # is) =
     (case get_neighbors g i of
        Inl e \<Rightarrow> Inl e
      | Inr ns \<Rightarrow>
          (case degrees_of g is of
             Inl e \<Rightarrow> Inl e
           | Inr ds \<Rightarrow> Inr (int (length ns) # ds)))"

definition calculate_all_degrees :: "graph \<Rightarrow> error + (int list \<times> graph)" where
  "calculate_all_degrees g =
     (case all_degrees_cache g of
        None \<Rightarrow>
          (case degrees_of g (range1 (vertex_count g)) of
             Inl e \<Rightarrow> Inl e
           | Inr ds \<Rightarrow> Inr (ds, g\<lparr> all_degrees_cache := Some ds \<rparr>))
      | Some ds \<Rightarrow> Inr (ds, g))"

subsection \<open>Breadth-first search\<close>

type_synonym parents = "(int \<times> int option) list"
type_synonym levels = "(int \<times> int) list"

text \<open>
  The \<open>for\<close> loop over the neighbours of the dequeued vertex \<open>u\<close>. \<open>levels[v]\<close> and
  \<open>levels[u]\<close> are dictionary reads.
\<close>

fun bfs_visit :: "int \<Rightarrow> int list \<Rightarrow> parents \<times> levels \<times> int list \<Rightarrow> error + parents \<times> levels \<times> int list" where
  "bfs_visit u [] st = Inr st"
| "bfs_visit u (v # vs) (parents, levels, queue) =
     (case dict_get levels v of
        Inl e \<Rightarrow> Inl e
      | Inr lv \<Rightarrow>
          if lv = - 1 then
            (case dict_get levels u of
               Inl e \<Rightarrow> Inl e
             | Inr lu \<Rightarrow>
                 bfs_visit u vs
                   (dict_set v (Some u) parents, dict_set v (lu + 1) levels, queue @ [v]))
          else bfs_visit u vs (parents, levels, queue))"

text \<open>
  The \<open>while queue\<close> loop. Nothing in its text bounds the number of rounds, so the result
  is an option: \<open>None\<close> stands for a loop that never ends.
\<close>

partial_function (option) bfs_loop :: "graph \<Rightarrow> parents \<times> levels \<times> int list \<Rightarrow> (error + parents \<times> levels) option" where
  "bfs_loop g st =
     (case st of (parents, levels, queue) \<Rightarrow>
        (case queue of
           [] \<Rightarrow> Some (Inr (parents, levels))
         | u # rest \<Rightarrow>
             (case get_neighbors g u of
                Inl e \<Rightarrow> Some (Inl e)
              | Inr ns \<Rightarrow>
                  (case bfs_visit u ns (parents, levels, rest) of
                     Inl e \<Rightarrow> Some (Inl e)
                   | Inr st' \<Rightarrow> bfs_loop g st'))))"

declare bfs_loop.simps [code]

definition breadth_first_search :: "graph \<Rightarrow> int \<Rightarrow> (error + parents \<times> levels) option" where
  "breadth_first_search g start_vertex =
     (if \<not> is_vertex_within_bounds start_vertex (vertex_count g) then Some (Inl ValueError)
      else
        (let parents = map (\<lambda>v. (v, None)) (range1 (vertex_count g));
             levels = map (\<lambda>v. (v, - 1)) (range1 (vertex_count g));
             queue = [start_vertex];
             levels = dict_set start_vertex 0 levels
         in bfs_loop g (parents, levels, queue)))"

subsection \<open>Depth-first search\<close>

text \<open>
  The stack is a Python list used from its end. \<open>sorted(xs, reverse=True)\<close> on integers
  is the ascending sort reversed.
\<close>

definition sorted_reverse :: "int list \<Rightarrow> int list" where
  "sorted_reverse xs = rev (sort xs)"

fun dfs_visit :: "int \<Rightarrow> int \<Rightarrow> int list \<Rightarrow> parents \<times> levels \<times> (int \<times> int) list \<times> int list \<Rightarrow> parents \<times> levels \<times> (int \<times> int) list \<times> int list" where
  "dfs_visit u level [] st = st"
| "dfs_visit u level (v # vs) (parents, levels, stack, visited) =
     (if v \<notin> set visited then
        dfs_visit u level vs
          (dict_set v (Some u) parents, dict_set v (level + 1) levels,
           stack @ [(v, level + 1)], set_add v visited)
      else dfs_visit u level vs (parents, levels, stack, visited))"

partial_function (option) dfs_loop :: "graph \<Rightarrow> parents \<times> levels \<times> (int \<times> int) list \<times> int list \<Rightarrow> (error + parents \<times> levels) option" where
  "dfs_loop g st =
     (case st of (parents, levels, stack, visited) \<Rightarrow>
        if stack = [] then Some (Inr (parents, levels))
        else
          (case last stack of (u, level) \<Rightarrow>
             (case get_neighbors g u of
                Inl e \<Rightarrow> Some (Inl e)
              | Inr ns \<Rightarrow>
                  dfs_loop g (dfs_visit u level (sorted_reverse ns)
                                (parents, levels, butlast stack, visited)))))"

declare dfs_loop.simps [code]

definition depth_first_search :: "graph \<Rightarrow> int \<Rightarrow> (error + parents \<times> levels) option" where
  "depth_first_search g start_vertex =
     (if \<not> (1 \<le> start_vertex \<and> start_vertex \<le> vertex_count g) then Some (Inl ValueError)
      else
        (let parents = map (\<lambda>v. (v, None)) (range1 (vertex_count g));
             levels = map (\<lambda>v. (v, - 1)) (range1 (vertex_count g));
             stack = [(start_vertex, 0)];
             visited = [start_vertex];
             parents = dict_set start_vertex None parents;
             levels = dict_set start_vertex 0 levels
         in dfs_loop g (parents, levels, stack, visited)))"

subsection \<open>Distance and diameter\<close>

definition get_distance :: "graph \<Rightarrow> int \<Rightarrow> int \<Rightarrow> (error + int) option" where
  "get_distance g u v =
     (case breadth_first_search g u of
        None \<Rightarrow> None
      | Some (Inl e) \<Rightarrow> Some (Inl e)
      | Some (Inr (parents, levels)) \<Rightarrow> Some (dict_get levels v))"

text \<open>Python's \<open>max\<close> of an empty sequence raises \<open>ValueError\<close>.\<close>

definition py_max :: "int list \<Rightarrow> error + int" where
  "py_max xs = (case xs of [] \<Rightarrow> Inl ValueError | x # ys \<Rightarrow> Inr (fold max ys x))"

fun diameter_loop :: "graph \<Rightarrow> int list \<Rightarrow> int \<Rightarrow> (error + int) option" where
  "diameter_loop g [] max_dist = Some (Inr max_dist)"
| "diameter_loop g (i # is) max_dist =
     (case breadth_first_search g i of
        None \<Rightarrow> None
      | Some (Inl e) \<Rightarrow> Some (Inl e)
      | Some (Inr (parents, levels)) \<Rightarrow>
          (case py_max (dict_values levels) of
             Inl e \<Rightarrow> Some (Inl e)
           | Inr current_max \<Rightarrow>
               diameter_loop g is (if current_max > max_dist then current_max else max_dist)))"

definition get_diameter :: "graph \<Rightarrow> (error + int) option" where
  "get_diameter g = diameter_loop g (range1 (vertex_count g)) 0"

subsection \<open>Connected components\<close>

record component =
  size :: int
  vertices :: "int list"

fun cc_visit :: "int list \<Rightarrow> int list \<times> int list \<times> int list \<Rightarrow> int list \<times> int list \<times> int list" where
  "cc_visit [] st = st"
| "cc_visit (neighbor # ns) (visited, component_nodes, queue) =
     (if neighbor \<notin> set visited then
        cc_visit ns (set_add neighbor visited, set_add neighbor component_nodes, queue @ [neighbor])
      else cc_visit ns (visited, component_nodes, queue))"

partial_function (option) cc_loop :: "graph \<Rightarrow> int list \<times> int list \<times> int list \<Rightarrow> (error + int list \<times> int list) option" where
  "cc_loop g st =
     (case st of (visited, component_nodes, queue) \<Rightarrow>
        (case queue of
           [] \<Rightarrow> Some (Inr (visited, component_nodes))
         | u # rest \<Rightarrow>
             (case get_neighbors g u of
                Inl e \<Rightarrow> Some (Inl e)
              | Inr ns \<Rightarrow> cc_loop g (cc_visit ns (visited, component_nodes, rest)))))"

declare cc_loop.simps [code]

fun cc_outer :: "graph \<Rightarrow> int list \<Rightarrow> int list \<times> component list \<Rightarrow> (error + component list) option" where
  "cc_outer g [] (visited, components) = Some (Inr components)"
| "cc_outer g (v # vs) (visited, components) =
     (if v \<notin> set visited then
        (case cc_loop g (set_add v visited, set_add v [], [v]) of
           None \<Rightarrow> None
         | Some (Inl e) \<Rightarrow> Some (Inl e)
         | Some (Inr (visited', component_nodes)) \<Rightarrow>
             cc_outer g vs
               (visited',
                components @ [\<lparr> size = int (length component_nodes),
                                vertices = sort component_nodes \<rparr>]))
      else cc_outer g vs (visited, components))"

text \<open>
  \<open>sorted(components, key=..., reverse=True)\<close> is a stable sort, also when reversed:
  components of equal size keep their order. It is the stable sort on the negated key.
\<close>

definition sorted_by_size_reverse :: "component list \<Rightarrow> component list" where
  "sorted_by_size_reverse cs = sort_key (\<lambda>x. - size x) cs"

definition get_connected_components :: "graph \<Rightarrow> (error + component list) option" where
  "get_connected_components g =
     (case cc_outer g (range1 (vertex_count g)) ([], []) of
        None \<Rightarrow> None
      | Some (Inl e) \<Rightarrow> Some (Inl e)
      | Some (Inr components) \<Rightarrow> Some (Inr (sorted_by_size_reverse components)))"

section \<open>Graphs that a program can build\<close>

text \<open>
  A graph object is created by the constructor and changed only by \<open>add_edge\<close> (whether
  the call returns or raises) and by the filling of the degree cache.
\<close>

inductive reachable :: "graph \<Rightarrow> bool" where
  init: "Graph_init n cls = Inr g \<Longrightarrow> reachable g"
| add: "reachable g \<Longrightarrow> reachable (snd (add_edge u v g))"
| degrees: "reachable g \<Longrightarrow> calculate_all_degrees g = Inr (ds, g') \<Longrightarrow> reachable g'"

text \<open>
  Two graphs made with the same vertex count and the same sequence of \<open>add_edge\<close> calls,
  the first on an adjacency list and the second on an adjacency matrix.
\<close>

inductive built_alike :: "graph \<Rightarrow> graph \<Rightarrow> bool" where
  init: "Graph_init n AdjacencyList = Inr gs \<Longrightarrow> Graph_init n AdjacencyMatrix = Inr gd \<Longrightarrow>
           built_alike gs gd"
| add: "built_alike gs gd \<Longrightarrow> built_alike (snd (add_edge u v gs)) (snd (add_edge u v gd))"

text \<open>The neighbours of a vertex, empty where \<open>get_neighbors\<close> raises.\<close>

definition neighbors :: "graph \<Rightarrow> int \<Rightarrow> int list" where
  "neighbors g v = (case get_neighbors g v of Inl e \<Rightarrow> [] | Inr ns \<Rightarrow> ns)"

text \<open>\<open>walk g n u v\<close>: there is a path of \<open>n\<close> edges from \<open>u\<close> to \<open>v\<close>.\<close>

fun walk :: "graph \<Rightarrow> nat \<Rightarrow> int \<Rightarrow> int \<Rightarrow> bool" where
  "walk g 0 u v \<longleftrightarrow> u = v"
| "walk g (Suc n) u v \<longleftrightarrow> (\<exists>w \<in> set (neighbors g u). walk g n w v)"

text \<open>\<open>d\<close> is the graph distance from \<open>u\<close> to \<open>v\<close>: the length of a shortest path.\<close>

definition is_distance :: "graph \<Rightarrow> int \<Rightarrow> int \<Rightarrow> nat \<Rightarrow> bool" where
  "is_distance g u v d \<longleftrightarrow> walk g d u v \<and> (\<forall>k < d. \<not> walk g k u v)"

definition connected :: "graph \<Rightarrow> int \<Rightarrow> int \<Rightarrow> bool" where
  "connected g u v \<longleftrightarrow> (\<exists>n. walk g n u v)"

section \<open>Invariants of a graph object\<close>

text \<open>
  The shape of the storage: every vertex has its duplicate-free neighbour set in the
  adjacency list; the adjacency matrix is square of side \<open>num_vertices\<close>.
\<close>

fun rep_ok :: "int \<Rightarrow> representation \<Rightarrow> bool" where
  "rep_ok n (Sparse r) \<longleftrightarrow> (\<forall>u. 1 \<le> u \<and> u \<le> n \<longrightarrow> (\<exists>su. al_adj r u = Some su \<and> distinct su))"
| "rep_ok n (Dense r) \<longleftrightarrow> length (am_matrix r) = nat n \<and> (\<forall>row \<in> set (am_matrix r). length row = nat n)"

definition struct_ok :: "graph \<Rightarrow> bool" where
  "struct_ok g \<longleftrightarrow> 0 < num_vertices g \<and> rep_ok (num_vertices g) (representation g)"

text \<open>
  What holds of every graph a program can build: each neighbour is a vertex, adjacency is
  symmetric, the neighbour counts add up to twice the edge count once a self-loop is
  counted twice, and a filled degree cache holds the current degrees.
\<close>

definition graph_inv :: "graph \<Rightarrow> bool" where
  "graph_inv g \<longleftrightarrow> struct_ok g \<and>
     (\<forall>u v. 1 \<le> u \<and> u \<le> num_vertices g \<and> v \<in> set (neighbors g u) \<longrightarrow>
        1 \<le> v \<and> v \<le> num_vertices g \<and> u \<in> set (neighbors g v)) \<and>
     (\<Sum>w \<in> {1..num_vertices g}.
        int (length (neighbors g w)) + (if w \<in> set (neighbors g w) then 1 else 0)) = 2 * edge_count g \<and>
     (\<forall>ds. all_degrees_cache g = Some ds \<longrightarrow>
        ds = map (\<lambda>w. int (length (neighbors g w))) (range1 (num_vertices g)))"

section \<open>The loop invariant of breadth-first search\<close>

text \<open>
  \<open>level_of\<close> reads a level, \<open>- 1\<close> standing for a missing key as well. In \<open>bfs_inv\<close>,
  \<open>cur\<close> is the vertex whose neighbours are being scanned (or nothing, between two rounds
  of the \<open>while\<close> loop), in front of the queue: the levels found so far are graph
  distances from \<open>s\<close>, the pending vertices are in level order and span at most two
  levels, and every visited vertex that is no longer pending has all its neighbours
  visited.
\<close>

definition level_of :: "levels \<Rightarrow> int \<Rightarrow> int" where
  "level_of lv v = (case map_of lv v of None \<Rightarrow> - 1 | Some l \<Rightarrow> l)"

definition bfs_inv :: "graph \<Rightarrow> int \<Rightarrow> int list \<Rightarrow> parents \<times> levels \<times> int list \<Rightarrow> bool" where
  "bfs_inv g s cur st =
     (case st of (ps, lv, q) \<Rightarrow>
        map fst ps = range1 (num_vertices g) \<and> map fst lv = range1 (num_vertices g) \<and>
        level_of lv s = 0 \<and> map_of ps s = Some None \<and>
        (\<forall>v. level_of lv v \<noteq> - 1 \<longrightarrow>
           0 \<le> level_of lv v \<and> is_distance g s v (nat (level_of lv v))) \<and>
        (\<forall>v. 1 \<le> v \<and> v \<le> num_vertices g \<and> level_of lv v = - 1 \<longrightarrow> map_of ps v = Some None) \<and>
        (\<forall>v \<in> set (cur @ q). level_of lv v \<noteq> - 1) \<and>
        sorted (map (level_of lv) (cur @ q)) \<and>
        (cur @ q \<noteq> [] \<longrightarrow> level_of lv (last (cur @ q)) \<le> level_of lv (hd (cur @ q)) + 1) \<and>
        (\<forall>v. level_of lv v \<noteq> - 1 \<and> v \<notin> set (cur @ q) \<longrightarrow>
           (\<forall>w \<in> set (neighbors g v). level_of lv w \<noteq> - 1)))"

definition bfs_measure :: "parents \<times> levels \<times> int list \<Rightarrow> nat" where
  "bfs_measure st = (case st of (ps, lv, q) \<Rightarrow>
     2 * card {v. map_of lv v = Some (- 1)} + length q)"

section \<open>The loop invariant of depth-first search\<close>

text \<open>
  The keys of both dictionaries stay \<open>1..N\<close>; the start vertex keeps parent \<open>None\<close> and
  depth \<open>0\<close>; every visited vertex is a vertex joined to \<open>s\<close> by a path, with a depth that
  is not negative; a vertex not visited still has parent \<open>None\<close> and depth \<open>- 1\<close>; the
  stack holds visited vertices only.
\<close>

definition dfs_inv :: "graph \<Rightarrow> int \<Rightarrow> parents \<times> levels \<times> (int \<times> int) list \<times> int list \<Rightarrow> bool" where
  "dfs_inv g s st =
     (case st of (ps, lv, stack, visited) \<Rightarrow>
        map fst ps = range1 (num_vertices g) \<and> map fst lv = range1 (num_vertices g) \<and>
        map_of ps s = Some None \<and> map_of lv s = Some 0 \<and> s \<in> set visited \<and>
        (\<forall>x \<in> set visited. 1 \<le> x \<and> x \<le> num_vertices g \<and> connected g s x \<and> 0 \<le> level_of lv x) \<and>
        (\<forall>x. 1 \<le> x \<and> x \<le> num_vertices g \<and> x \<notin> set visited \<longrightarrow>
           map_of ps x = Some None \<and> map_of lv x = Some (- 1)) \<and>
        (\<forall>(u, l) \<in> set stack. u \<in> set visited \<and> 0 \<le> l))"

definition dfs_measure :: "graph \<Rightarrow> parents \<times> levels \<times> (int \<times> int) list \<times> int list \<Rightarrow> nat" where
  "dfs_measure g st = (case st of (ps, lv, stack, visited) \<Rightarrow>
     2 * card ({1..num_vertices g} - set visited) + length stack)"

section \<open>The loop invariants of the component search\<close>

text \<open>
  During one flood fill from the seed \<open>v\<close>, with \<open>old\<close> the vertices visited before it:
  the visited vertices are \<open>old\<close> and the nodes of the component, which are new, are
  vertices not below \<open>v\<close>, and include \<open>v\<close> and everything in the queue.
\<close>

definition cc_inv :: "graph \<Rightarrow> int set \<Rightarrow> int \<Rightarrow> int list \<times> int list \<times> int list \<Rightarrow> bool" where
  "cc_inv g old v st =
     (case st of (visited, component_nodes, queue) \<Rightarrow>
        set visited = old \<union> set component_nodes \<and> old \<inter> set component_nodes = {} \<and>
        distinct component_nodes \<and> v \<in> set component_nodes \<and>
        (\<forall>x \<in> set component_nodes. v \<le> x \<and> x \<le> num_vertices g) \<and>
        set queue \<subseteq> set component_nodes)"

definition cc_measure :: "graph \<Rightarrow> int list \<times> int list \<times> int list \<Rightarrow> nat" where
  "cc_measure g st = (case st of (visited, component_nodes, queue) \<Rightarrow>
     2 * card ({1..num_vertices g} - set visited) + length queue)"

text \<open>
  Between two rounds of the outer loop, about to look at vertex \<open>v\<close>: every vertex below
  \<open>v\<close> is visited, the visited vertices are those of the components found, which are
  pairwise disjoint, sorted, not empty and recorded with their length, and the components
  stand in the order of their least vertices.
\<close>

definition co_inv :: "graph \<Rightarrow> int \<Rightarrow> int list \<times> component list \<Rightarrow> bool" where
  "co_inv g v st =
     (case st of (visited, components) \<Rightarrow>
        (\<forall>x \<in> set visited. 1 \<le> x \<and> x \<le> num_vertices g) \<and>
        (\<forall>w. 1 \<le> w \<and> w < v \<longrightarrow> w \<in> set visited) \<and>
        set visited = (\<Union>c \<in> set components. set (vertices c)) \<and>
        distinct components \<and>
        (\<forall>c \<in> set components. \<forall>c' \<in> set components.
           c \<noteq> c' \<longrightarrow> set (vertices c) \<inter> set (vertices c') = {}) \<and>
        (\<forall>c \<in> set components.
           size c = int (length (vertices c)) \<and> sorted (vertices c) \<and> distinct (vertices c) \<and>
           vertices c \<noteq> [] \<and> hd (vertices c) < v) \<and>
        sum_list (map size components) = int (card (set visited)) \<and>
        sorted_wrt (\<lambda>a b. hd (vertices a) < hd (vertices b)) components)"

section \<open>Example graphs\<close>

text \<open>One vertex with a self-loop; and five vertices with the edges (1,2), (2,3), (4,5).\<close>

definition self_loop_graph :: "representation_cls \<Rightarrow> graph" where
  "self_loop_graph cls = snd (add_edge 1 1 (projr (Graph_init 1 cls)))"

definition example_graph :: "representation_cls \<Rightarrow> graph" where
  "example_graph cls =
     snd (add_edge 4 5 (snd (add_edge 2 3 (snd (add_edge 1 2 (projr (Graph_init 5 cls)))))))"

section \<open>The representations and the facade\<close>

lemma np_index_in: "0 \<le> i \<Longrightarrow> i < int n \<Longrightarrow> np_index n i = Inr (nat i)"
  by (simp add: np_index_def)

lemma set_nonzero_plus1: "set (nonzero_plus1 row) = {int j + 1 | j. j < length row \<and> row ! j \<noteq> 0}"
  by (auto simp: nonzero_plus1_def)

lemma distinct_nonzero_plus1: "distinct (nonzero_plus1 row)"
  by (simp add: nonzero_plus1_def distinct_map inj_on_def)

lemma get_neighbors_ok:
  assumes "struct_ok g" "1 \<le> u" "u \<le> num_vertices g"
  shows "get_neighbors g u = Inr (neighbors g u)" "distinct (neighbors g u)"
proof -
  show "get_neighbors g u = Inr (neighbors g u)"
  proof (cases "representation g")
    case (Sparse r)
    with assms show ?thesis
      by (auto simp: neighbors_def get_neighbors_def is_vertex_within_bounds_def struct_ok_def al_get_neighbors_def split: option.splits)
  next
    case (Dense r)
    with assms show ?thesis
      by (auto simp: neighbors_def get_neighbors_def is_vertex_within_bounds_def struct_ok_def am_get_neighbors_def mat_row_def np_index_def split: sum.splits)
  qed
  show "distinct (neighbors g u)"
  proof (cases "representation g")
    case (Sparse r)
    with assms show ?thesis
      by (auto simp: neighbors_def get_neighbors_def is_vertex_within_bounds_def struct_ok_def al_get_neighbors_def split: option.splits)
  next
    case (Dense r)
    with assms show ?thesis
      by (auto simp: neighbors_def get_neighbors_def is_vertex_within_bounds_def struct_ok_def am_get_neighbors_def mat_row_def np_index_def distinct_nonzero_plus1 split: sum.splits)
  qed
qed


lemma al_add_edge_effect:
  assumes ok: "rep_ok n (Sparse r)" and u: "1 \<le> u" "u \<le> n" and v: "1 \<le> v" "v \<le> n"
  shows "\<exists>r'. al_add_edge u v r = (None, r') \<and> rep_ok n (Sparse r') \<and>
     (v \<in> set (the (al_adj r u)) \<longrightarrow> r' = r) \<and>
     (v \<notin> set (the (al_adj r u)) \<longrightarrow> al_edge_count r' = al_edge_count r + 1 \<and>
        (\<forall>w. 1 \<le> w \<and> w \<le> n \<longrightarrow> set (the (al_adj r' w)) =
            set (the (al_adj r w)) \<union> (if w = u then {v} else {}) \<union> (if w = v then {u} else {})))"
proof -
  from ok u obtain su where su: "al_adj r u = Some su" "distinct su" by auto
  from ok v obtain sv where sv: "al_adj r v = Some sv" "distinct sv" by auto
  show ?thesis
  proof (cases "v \<in> set su")
    case True
    with su ok show ?thesis by (simp add: al_add_edge_def)
  next
    case False
    with su sv ok show ?thesis
      by (auto simp: al_add_edge_def set_add_def Let_def)
  qed
qed


lemma nth_list_update2:
  "a < length m \<Longrightarrow> b < length (m ! a) \<Longrightarrow> i < length m \<Longrightarrow>
   (m[a := (m ! a)[b := x]]) ! i ! j = (if i = a \<and> j = b then x else m ! i ! j)"
  by (auto simp: nth_list_update)

lemma am_add_edge_effect:
  assumes ok: "rep_ok n (Dense r)" and u: "1 \<le> u" "u \<le> n" and v: "1 \<le> v" "v \<le> n"
  shows "\<exists>r'. am_add_edge u v r = (None, r') \<and> rep_ok n (Dense r') \<and>
     (v \<in> set (nonzero_plus1 (am_matrix r ! nat (u - 1))) \<longrightarrow> r' = r) \<and>
     (v \<notin> set (nonzero_plus1 (am_matrix r ! nat (u - 1))) \<longrightarrow> am_edge_count r' = am_edge_count r + 1 \<and>
        (\<forall>w. 1 \<le> w \<and> w \<le> n \<longrightarrow> set (nonzero_plus1 (am_matrix r' ! nat (w - 1))) =
            set (nonzero_plus1 (am_matrix r ! nat (w - 1))) \<union> (if w = u then {v} else {}) \<union> (if w = v then {u} else {})))"
proof -
  let ?m = "am_matrix r"
  let ?a = "nat (u - 1)" and ?b = "nat (v - 1)"
  from ok have len: "length ?m = nat n" and rows: "\<And>i. i < nat n \<Longrightarrow> length (?m ! i) = nat n"
    by auto
  from u v have ab: "?a < nat n" "?b < nat n" by auto
  have iu: "np_index (nat n) (u - 1) = Inr ?a" and iv: "np_index (nat n) (v - 1) = Inr ?b"
    using u v by (auto simp: np_index_def)
  have vin: "v \<in> set (nonzero_plus1 (?m ! ?a)) \<longleftrightarrow> ?m ! ?a ! ?b \<noteq> 0"
  proof
    assume "v \<in> set (nonzero_plus1 (?m ! ?a))"
    then obtain j where "v = int j + 1" "?m ! ?a ! j \<noteq> 0" by (auto simp: set_nonzero_plus1)
    then show "?m ! ?a ! ?b \<noteq> 0" by simp
  next
    assume "?m ! ?a ! ?b \<noteq> 0"
    with ab rows[of ?a] v show "v \<in> set (nonzero_plus1 (?m ! ?a))"
      by (auto simp: set_nonzero_plus1 intro!: exI[of _ ?b])
  qed
  show ?thesis
  proof (cases "?m ! ?a ! ?b = 0")
    case False
    then show ?thesis using ok iu iv len rows[OF ab(1)] vin
      by (simp add: am_add_edge_def mat_get_def Let_def)
  next
    case True
    let ?m1 = "?m[?a := (?m ! ?a)[?b := 1]]"
    let ?m2 = "?m1[?b := (?m1 ! ?b)[?a := 1]]"
    let ?r' = "r\<lparr> am_matrix := ?m2, am_edge_count := am_edge_count r + 1 \<rparr>"
    have len1: "length ?m1 = nat n" using len by simp
    have rows1: "length (?m1 ! i) = nat n" if "i < nat n" for i
      using that len rows[of i] rows[of ?a] ab by (cases "i = ?a") simp_all
    have len2: "length ?m2 = nat n" using len by simp
    have rows2: "length (?m2 ! i) = nat n" if "i < nat n" for i
      using that len1 rows1[of i] rows1[of ?b] ab by (cases "i = ?b") simp_all
    have run: "am_add_edge u v r = (None, ?r')"
      using True iu iv len rows[OF ab(1)] len1 rows1[OF ab(2)]
      by (simp add: am_add_edge_def mat_get_def mat_set_def Let_def)
    have ok': "rep_ok n (Dense ?r')"
      using len2 rows2 by (auto simp: in_set_conv_nth)
    have entry: "?m2 ! i ! j = (if (i = ?a \<and> j = ?b) \<or> (i = ?b \<and> j = ?a) then 1 else ?m ! i ! j)"
      if "i < nat n" "j < nat n" for i j
      using that ab len rows len1 rows1 by (auto simp: nth_list_update)
    have nb: "set (nonzero_plus1 (?m2 ! nat (w - 1))) =
            set (nonzero_plus1 (?m ! nat (w - 1))) \<union> (if w = u then {v} else {}) \<union> (if w = v then {u} else {})"
      if w: "1 \<le> w" "w \<le> n" for w
    proof -
      let ?c = "nat (w - 1)"
      from w have c: "?c < nat n" by auto
      have eqs: "(?c = ?a) = (w = u)" "(?c = ?b) = (w = v)" using u v w by auto
      have *: "set (nonzero_plus1 (?m2 ! ?c)) = {int j + 1 | j. j < nat n \<and> ?m2 ! ?c ! j \<noteq> 0}"
        by (simp add: set_nonzero_plus1 rows2[OF c])
      have **: "set (nonzero_plus1 (?m ! ?c)) = {int j + 1 | j. j < nat n \<and> ?m ! ?c ! j \<noteq> 0}"
        by (simp add: set_nonzero_plus1 rows[OF c])
      have vb: "v = int ?b + 1" "u = int ?a + 1" using u v by auto
      show ?thesis
        unfolding * **
      proof (intro set_eqI iffI)
        fix x assume "x \<in> {int j + 1 |j. j < nat n \<and> ?m2 ! ?c ! j \<noteq> 0}"
        then obtain j where j: "x = int j + 1" "j < nat n" "?m2 ! ?c ! j \<noteq> 0" by blast
        show "x \<in> {int j + 1 |j. j < nat n \<and> ?m ! ?c ! j \<noteq> 0} \<union> (if w = u then {v} else {}) \<union> (if w = v then {u} else {})"
          using j entry[OF c j(2)] eqs vb by (auto split: if_splits)
      next
        fix x assume x: "x \<in> {int j + 1 |j. j < nat n \<and> ?m ! ?c ! j \<noteq> 0} \<union> (if w = u then {v} else {}) \<union> (if w = v then {u} else {})"
        show "x \<in> {int j + 1 |j. j < nat n \<and> ?m2 ! ?c ! j \<noteq> 0}"
        proof (cases "x \<in> {int j + 1 |j. j < nat n \<and> ?m ! ?c ! j \<noteq> 0}")
          case True
          then obtain j where j: "x = int j + 1" "j < nat n" "?m ! ?c ! j \<noteq> 0" by blast
          then have "?m2 ! ?c ! j \<noteq> 0" using entry[OF c j(2)] by auto
          with j show ?thesis by blast
        next
          case False
          with x have "(w = u \<and> x = v) \<or> (w = v \<and> x = u)" by (auto split: if_splits)
          then show ?thesis
          proof
            assume "w = u \<and> x = v"
            then have "?m2 ! ?c ! ?b \<noteq> 0" using entry[OF c ab(2)] eqs by auto
            with ab vb \<open>w = u \<and> x = v\<close> show ?thesis by blast
          next
            assume "w = v \<and> x = u"
            then have "?m2 ! ?c ! ?a \<noteq> 0" using entry[OF c ab(1)] eqs by auto
            with ab vb \<open>w = v \<and> x = u\<close> show ?thesis by blast
          qed
        qed
      qed
    qed
    show ?thesis
      using run ok' vin True nb by (intro exI[of _ ?r']) simp
  qed
qed


lemma neighbors_Sparse:
  "representation g = Sparse r \<Longrightarrow> 1 \<le> w \<Longrightarrow> w \<le> num_vertices g \<Longrightarrow> al_adj r w = Some sw \<Longrightarrow>
   neighbors g w = sw"
  by (simp add: neighbors_def get_neighbors_def is_vertex_within_bounds_def al_get_neighbors_def)

lemma neighbors_Dense:
  "representation g = Dense r \<Longrightarrow> 1 \<le> w \<Longrightarrow> w \<le> num_vertices g \<Longrightarrow> length (am_matrix r) = nat (num_vertices g) \<Longrightarrow>
   neighbors g w = nonzero_plus1 (am_matrix r ! nat (w - 1))"
  by (simp add: neighbors_def get_neighbors_def is_vertex_within_bounds_def am_get_neighbors_def
      mat_row_def np_index_def)

lemma add_edge_effect:
  assumes ok: "struct_ok g" and u: "1 \<le> u" "u \<le> num_vertices g" and v: "1 \<le> v" "v \<le> num_vertices g"
  shows "\<exists>g'. add_edge u v g = (None, g') \<and> struct_ok g' \<and> num_vertices g' = num_vertices g \<and>
     all_degrees_cache g' = None \<and>
     (v \<in> set (neighbors g u) \<longrightarrow> representation g' = representation g) \<and>
     (v \<notin> set (neighbors g u) \<longrightarrow> edge_count g' = edge_count g + 1 \<and>
        (\<forall>w. 1 \<le> w \<and> w \<le> num_vertices g \<longrightarrow> set (neighbors g' w) =
            set (neighbors g w) \<union> (if w = u then {v} else {}) \<union> (if w = v then {u} else {})))"
proof (cases "representation g")
  case (Sparse r)
  let ?n = "num_vertices g"
  from ok Sparse have rok: "rep_ok ?n (Sparse r)" by (simp add: struct_ok_def)
  from al_add_edge_effect[OF rok u v] obtain r' where r':
    "al_add_edge u v r = (None, r')" "rep_ok ?n (Sparse r')"
    "v \<in> set (the (al_adj r u)) \<longrightarrow> r' = r"
    "v \<notin> set (the (al_adj r u)) \<longrightarrow> al_edge_count r' = al_edge_count r + 1 \<and>
        (\<forall>w. 1 \<le> w \<and> w \<le> ?n \<longrightarrow> set (the (al_adj r' w)) =
            set (the (al_adj r w)) \<union> (if w = u then {v} else {}) \<union> (if w = v then {u} else {}))"
    by blast
  let ?g' = "invalidate_degree_cache (g\<lparr> representation := Sparse r' \<rparr>)"
  have run: "add_edge u v g = (None, ?g')"
    using u v Sparse r'(1) by (simp add: add_edge_def is_vertex_within_bounds_def)
  have g': "representation ?g' = Sparse r'" "num_vertices ?g' = ?n" "all_degrees_cache ?g' = None"
    by (simp_all add: invalidate_degree_cache_def)
  have nb: "neighbors g w = the (al_adj r w)" if "1 \<le> w" "w \<le> ?n" for w
    using rok that neighbors_Sparse[OF Sparse that] by auto
  have nb': "neighbors ?g' w = the (al_adj r' w)" if "1 \<le> w" "w \<le> ?n" for w
    using r'(2) that neighbors_Sparse[OF g'(1), of w] g'(2) by auto
  have "struct_ok ?g'" using ok r'(2) g' by (simp add: struct_ok_def)
  moreover have "v \<in> set (neighbors g u) \<longrightarrow> representation ?g' = representation g"
    using r'(3) nb[OF u] Sparse g'(1) by auto
  moreover have "v \<notin> set (neighbors g u) \<longrightarrow> edge_count ?g' = edge_count g + 1 \<and>
        (\<forall>w. 1 \<le> w \<and> w \<le> ?n \<longrightarrow> set (neighbors ?g' w) =
            set (neighbors g w) \<union> (if w = u then {v} else {}) \<union> (if w = v then {u} else {}))"
    using r'(4) nb[OF u] nb nb' Sparse g'(1) by (simp add: edge_count_def)
  ultimately show ?thesis using run g' by blast
next
  case (Dense r)
  let ?n = "num_vertices g"
  from ok Dense have rok: "rep_ok ?n (Dense r)" by (simp add: struct_ok_def)
  from am_add_edge_effect[OF rok u v] obtain r' where r':
    "am_add_edge u v r = (None, r')" "rep_ok ?n (Dense r')"
    "v \<in> set (nonzero_plus1 (am_matrix r ! nat (u - 1))) \<longrightarrow> r' = r"
    "v \<notin> set (nonzero_plus1 (am_matrix r ! nat (u - 1))) \<longrightarrow> am_edge_count r' = am_edge_count r + 1 \<and>
        (\<forall>w. 1 \<le> w \<and> w \<le> ?n \<longrightarrow> set (nonzero_plus1 (am_matrix r' ! nat (w - 1))) =
            set (nonzero_plus1 (am_matrix r ! nat (w - 1))) \<union> (if w = u then {v} else {}) \<union> (if w = v then {u} else {}))"
    by blast
  let ?g' = "invalidate_degree_cache (g\<lparr> representation := Dense r' \<rparr>)"
  have run: "add_edge u v g = (None, ?g')"
    using u v Dense r'(1) by (simp add: add_edge_def is_vertex_within_bounds_def)
  have g': "representation ?g' = Dense r'" "num_vertices ?g' = ?n" "all_degrees_cache ?g' = None"
    by (simp_all add: invalidate_degree_cache_def)
  have nb: "neighbors g w = nonzero_plus1 (am_matrix r ! nat (w - 1))" if "1 \<le> w" "w \<le> ?n" for w
    using rok that neighbors_Dense[OF Dense that] by auto
  have nb': "neighbors ?g' w = nonzero_plus1 (am_matrix r' ! nat (w - 1))" if "1 \<le> w" "w \<le> ?n" for w
    using r'(2) that neighbors_Dense[OF g'(1), of w] g'(2) by auto
  have "struct_ok ?g'" using ok r'(2) g' by (simp add: struct_ok_def)
  moreover have "v \<in> set (neighbors g u) \<longrightarrow> representation ?g' = representation g"
    using r'(3) nb[OF u] Dense g'(1) by auto
  moreover have "v \<notin> set (neighbors g u) \<longrightarrow> edge_count ?g' = edge_count g + 1 \<and>
        (\<forall>w. 1 \<le> w \<and> w \<le> ?n \<longrightarrow> set (neighbors ?g' w) =
            set (neighbors g w) \<union> (if w = u then {v} else {}) \<union> (if w = v then {u} else {}))"
    using r'(4) nb[OF u] nb nb' Dense g'(1) by (simp add: edge_count_def)
  ultimately show ?thesis using run g' by blast
qed

lemma add_edge_rejected:
  "\<not> (1 \<le> u \<and> u \<le> num_vertices g \<and> 1 \<le> v \<and> v \<le> num_vertices g) \<Longrightarrow>
   add_edge u v g = (Some ValueError, g)"
  by (auto simp: add_edge_def is_vertex_within_bounds_def)

lemma Graph_init_props:
  assumes "Graph_init n cls = Inr g"
  shows "0 < n" "num_vertices g = n" "all_degrees_cache g = None" "edge_count g = 0"
    "struct_ok g" "1 \<le> w \<Longrightarrow> w \<le> n \<Longrightarrow> neighbors g w = []"
proof -
  from assms show n: "0 < n" by (auto simp: Graph_init_def split: if_splits)
  from assms show nv: "num_vertices g = n"
    by (auto simp: Graph_init_def split: if_splits sum.splits)
  from assms show "all_degrees_cache g = None"
    by (auto simp: Graph_init_def split: if_splits sum.splits)
  from assms show "edge_count g = 0"
    by (cases cls) (auto simp: Graph_init_def representation_init_def edge_count_def
        AdjacencyList_init_def AdjacencyMatrix_init_def split: if_splits sum.splits)
  from assms show ok: "struct_ok g"
    by (cases cls) (auto simp: Graph_init_def representation_init_def struct_ok_def
        AdjacencyList_init_def AdjacencyMatrix_init_def split: if_splits sum.splits)
  show "neighbors g w = []" if w: "1 \<le> w" "w \<le> n"
  proof (cases cls)
    case AdjacencyList
    with assms n have "representation g = Sparse (AdjacencyList_init n)"
      by (auto simp: Graph_init_def representation_init_def split: if_splits)
    from neighbors_Sparse[OF this, of w "[]"] w nv show ?thesis
      by (simp add: AdjacencyList_init_def)
  next
    case AdjacencyMatrix
    let ?r = "\<lparr> am_num_vertices = n, am_matrix = replicate (nat n) (replicate (nat n) 0), am_edge_count = 0 \<rparr>"
    from AdjacencyMatrix assms n have "representation g = Dense ?r"
      by (auto simp: Graph_init_def representation_init_def AdjacencyMatrix_init_def split: if_splits)
    from neighbors_Dense[OF this, of w] w nv show ?thesis
      by (simp add: nonzero_plus1_def)
  qed
qed

lemma graph_inv_init:
  assumes "Graph_init n cls = Inr g"
  shows "graph_inv g"
proof -
  note p = Graph_init_props[OF assms]
  have "(\<Sum>w \<in> {1..n}. int (length (neighbors g w)) + (if w \<in> set (neighbors g w) then 1 else 0)) = 0"
    by (rule sum.neutral) (simp add: p(6))
  then show ?thesis
    unfolding graph_inv_def using p by auto
qed

lemma graph_invD:
  assumes "graph_inv g"
  shows "struct_ok g"
    and "\<And>a b. 1 \<le> a \<Longrightarrow> a \<le> num_vertices g \<Longrightarrow> b \<in> set (neighbors g a) \<Longrightarrow>
        1 \<le> b \<and> b \<le> num_vertices g \<and> a \<in> set (neighbors g b)"
    and "(\<Sum>w \<in> {1..num_vertices g}.
        int (length (neighbors g w)) + (if w \<in> set (neighbors g w) then 1 else 0)) = 2 * edge_count g"
    and "\<And>ds. all_degrees_cache g = Some ds \<Longrightarrow>
        ds = map (\<lambda>w. int (length (neighbors g w))) (range1 (num_vertices g))"
  using assms unfolding graph_inv_def by blast+

lemma graph_invI:
  assumes "struct_ok g"
    and "\<And>a b. 1 \<le> a \<Longrightarrow> a \<le> num_vertices g \<Longrightarrow> b \<in> set (neighbors g a) \<Longrightarrow>
        1 \<le> b \<and> b \<le> num_vertices g \<and> a \<in> set (neighbors g b)"
    and "(\<Sum>w \<in> {1..num_vertices g}.
        int (length (neighbors g w)) + (if w \<in> set (neighbors g w) then 1 else 0)) = 2 * edge_count g"
    and "\<And>ds. all_degrees_cache g = Some ds \<Longrightarrow>
        ds = map (\<lambda>w. int (length (neighbors g w))) (range1 (num_vertices g))"
  shows "graph_inv g"
  using assms unfolding graph_inv_def by blast

lemma graph_inv_add_edge:
  assumes inv: "graph_inv g"
  shows "graph_inv (snd (add_edge u v g))"
proof (cases "1 \<le> u \<and> u \<le> num_vertices g \<and> 1 \<le> v \<and> v \<le> num_vertices g")
  case False
  then show ?thesis using inv by (simp add: add_edge_rejected)
next
  case True
  let ?n = "num_vertices g"
  note ok = graph_invD(1)[OF inv] and sym = graph_invD(2)[OF inv] and cnt = graph_invD(3)[OF inv]
  from True have u: "1 \<le> u" "u \<le> ?n" and v: "1 \<le> v" "v \<le> ?n" by auto
  from add_edge_effect[OF ok u v] obtain g' where g':
    "add_edge u v g = (None, g')" "struct_ok g'" "num_vertices g' = ?n" "all_degrees_cache g' = None"
    "v \<in> set (neighbors g u) \<longrightarrow> representation g' = representation g"
    "v \<notin> set (neighbors g u) \<longrightarrow> edge_count g' = edge_count g + 1 \<and>
        (\<forall>w. 1 \<le> w \<and> w \<le> ?n \<longrightarrow> set (neighbors g' w) =
            set (neighbors g w) \<union> (if w = u then {v} else {}) \<union> (if w = v then {u} else {}))"
    by blast
  have "graph_inv g'"
  proof (cases "v \<in> set (neighbors g u)")
    case True
    with g'(5) have rep: "representation g' = representation g" by simp
    have nb: "neighbors g' = neighbors g"
      using rep g'(3) by (simp add: neighbors_def get_neighbors_def fun_eq_iff)
    have ec: "edge_count g' = edge_count g" using rep by (simp add: edge_count_def)
    show ?thesis
    proof (rule graph_invI)
      show "struct_ok g'" by (rule g'(2))
      show "1 \<le> b \<and> b \<le> num_vertices g' \<and> a \<in> set (neighbors g' b)"
        if "1 \<le> a" "a \<le> num_vertices g'" "b \<in> set (neighbors g' a)" for a b
        using that sym[of a b] unfolding nb g'(3) by simp
      show "(\<Sum>w \<in> {1..num_vertices g'}.
        int (length (neighbors g' w)) + (if w \<in> set (neighbors g' w) then 1 else 0)) = 2 * edge_count g'"
        unfolding nb g'(3) ec by (rule cnt)
      show "ds = map (\<lambda>w. int (length (neighbors g' w))) (range1 (num_vertices g'))"
        if "all_degrees_cache g' = Some ds" for ds
        using that g'(4) by simp
    qed
  next
    case False
    with g'(6) have ec: "edge_count g' = edge_count g + 1"
      and nb: "\<And>w. 1 \<le> w \<Longrightarrow> w \<le> ?n \<Longrightarrow> set (neighbors g' w) =
            set (neighbors g w) \<union> (if w = u then {v} else {}) \<union> (if w = v then {u} else {})"
      by blast+
    from False sym[OF v, of u] have unv: "u \<notin> set (neighbors g v)" by blast
    have sym': "1 \<le> b \<and> b \<le> ?n \<and> a \<in> set (neighbors g' b)"
      if a: "1 \<le> a" "a \<le> ?n" and b: "b \<in> set (neighbors g' a)" for a b
    proof -
      from b nb[OF a] have "b \<in> set (neighbors g a) \<or> (a = u \<and> b = v) \<or> (a = v \<and> b = u)"
        by (auto split: if_splits)
      then show ?thesis
      proof (elim disjE)
        assume *: "b \<in> set (neighbors g a)"
        from sym[OF a *] have **: "1 \<le> b" "b \<le> ?n" "a \<in> set (neighbors g b)" by blast+
        from nb[OF **(1,2)] **(3) have "a \<in> set (neighbors g' b)" by blast
        with ** show ?thesis by blast
      next
        assume "a = u \<and> b = v" with nb[OF v] v show ?thesis by simp
      next
        assume "a = v \<and> b = u" with nb[OF u] u show ?thesis by simp
      qed
    qed
    let ?d = "\<lambda>h w. int (length (neighbors h w)) + (if w \<in> set (neighbors h w) then 1 else 0)"
    have d: "?d g' w = ?d g w + (if w = u then 1 else 0) + (if w = v then 1 else 0)"
      if w: "1 \<le> w" "w \<le> ?n" for w
    proof -
      have c: "length (neighbors g w) = card (set (neighbors g w))"
        using get_neighbors_ok(2)[OF ok w] by (simp add: distinct_card)
      have "distinct (neighbors g' w)"
        using get_neighbors_ok(2)[OF g'(2), of w] w g'(3) by simp
      then have c': "length (neighbors g' w) = card (set (neighbors g' w))"
        by (simp add: distinct_card)
      consider "w = u" "w = v" | "w = u" "w \<noteq> v" | "w \<noteq> u" "w = v" | "w \<noteq> u" "w \<noteq> v" by blast
      then show ?thesis
      proof cases
        case 1
        with False have "w \<notin> set (neighbors g w)" by simp
        then show ?thesis unfolding c c' nb[OF w] using 1 by simp
      next
        case 2
        with False have "v \<notin> set (neighbors g w)" by simp
        then show ?thesis unfolding c c' nb[OF w] using 2 by simp
      next
        case 3
        with unv have "u \<notin> set (neighbors g w)" by simp
        then show ?thesis unfolding c c' nb[OF w] using 3 by simp
      next
        case 4
        then show ?thesis unfolding c c' nb[OF w] by simp
      qed
    qed
    have "(\<Sum>w \<in> {1..?n}. ?d g' w) = (\<Sum>w \<in> {1..?n}. ?d g w + (if w = u then 1 else 0) + (if w = v then 1 else 0))"
      by (rule sum.cong[OF refl]) (use d in simp)
    also have "\<dots> = (\<Sum>w \<in> {1..?n}. ?d g w) + (\<Sum>w \<in> {1..?n}. if w = u then 1 else 0) + (\<Sum>w \<in> {1..?n}. if w = v then 1 else 0)"
      by (simp only: sum.distrib)
    also have "\<dots> = (\<Sum>w \<in> {1..?n}. ?d g w) + 2"
      using u v by (simp add: sum.delta')
    finally have cnt': "(\<Sum>w \<in> {1..?n}. ?d g' w) = 2 * edge_count g'"
      using cnt ec by simp
    show ?thesis
    proof (rule graph_invI)
      show "struct_ok g'" by (rule g'(2))
      show "1 \<le> b \<and> b \<le> num_vertices g' \<and> a \<in> set (neighbors g' b)"
        if "1 \<le> a" "a \<le> num_vertices g'" "b \<in> set (neighbors g' a)" for a b
        using that sym'[of a b] unfolding g'(3) by simp
      show "(\<Sum>w \<in> {1..num_vertices g'}. ?d g' w) = 2 * edge_count g'"
        unfolding g'(3) by (rule cnt')
      show "ds = map (\<lambda>w. int (length (neighbors g' w))) (range1 (num_vertices g'))"
        if "all_degrees_cache g' = Some ds" for ds
        using that g'(4) by simp
    qed
  qed
  with g'(1) show ?thesis by simp
qed

lemma neighbors_cong:
  "num_vertices g' = num_vertices g \<Longrightarrow> representation g' = representation g \<Longrightarrow>
   get_neighbors g' = get_neighbors g \<and> neighbors g' = neighbors g"
  by (simp add: neighbors_def get_neighbors_def fun_eq_iff)

lemma degrees_of_ok:
  assumes "struct_ok g" "\<forall>i \<in> set is. 1 \<le> i \<and> i \<le> num_vertices g"
  shows "degrees_of g is = Inr (map (\<lambda>w. int (length (neighbors g w))) is)"
  using assms(2)
proof (induction "is")
  case Nil
  then show ?case by simp
next
  case (Cons i "is")
  then have "get_neighbors g i = Inr (neighbors g i)"
    using get_neighbors_ok(1)[OF assms(1), of i] by simp
  with Cons show ?case by simp
qed

lemma calculate_all_degrees_ok:
  assumes inv: "graph_inv g"
  shows "calculate_all_degrees g =
           Inr (map (\<lambda>w. int (length (neighbors g w))) (range1 (num_vertices g)),
                g\<lparr> all_degrees_cache :=
                     Some (map (\<lambda>w. int (length (neighbors g w))) (range1 (num_vertices g))) \<rparr>)"
proof (cases "all_degrees_cache g")
  case None
  have "degrees_of g (range1 (num_vertices g)) =
      Inr (map (\<lambda>w. int (length (neighbors g w))) (range1 (num_vertices g)))"
    by (rule degrees_of_ok[OF graph_invD(1)[OF inv]]) (simp add: range1_def)
  with None show ?thesis by (simp add: calculate_all_degrees_def vertex_count_def)
next
  case (Some ds)
  from graph_invD(4)[OF inv Some] Some show ?thesis
    by (simp add: calculate_all_degrees_def)
qed

lemma graph_inv_degrees:
  assumes inv: "graph_inv g" and c: "calculate_all_degrees g = Inr (ds, g')"
  shows "graph_inv g'"
proof -
  let ?ds = "map (\<lambda>w. int (length (neighbors g w))) (range1 (num_vertices g))"
  from c calculate_all_degrees_ok[OF inv] have g': "g' = g\<lparr> all_degrees_cache := Some ?ds \<rparr>"
    by auto
  have nv: "num_vertices g' = num_vertices g" and rep: "representation g' = representation g"
    and cache: "all_degrees_cache g' = Some ?ds"
    by (simp_all add: g')
  have nb: "neighbors g' = neighbors g" using neighbors_cong[OF nv rep] by simp
  have ec: "edge_count g' = edge_count g" by (simp add: edge_count_def rep)
  show ?thesis
  proof (rule graph_invI)
    show "struct_ok g'" using graph_invD(1)[OF inv] by (simp add: struct_ok_def nv rep)
    show "1 \<le> b \<and> b \<le> num_vertices g' \<and> a \<in> set (neighbors g' b)"
      if "1 \<le> a" "a \<le> num_vertices g'" "b \<in> set (neighbors g' a)" for a b
      using that graph_invD(2)[OF inv, of a b] unfolding nb nv by simp
    show "(\<Sum>w \<in> {1..num_vertices g'}.
        int (length (neighbors g' w)) + (if w \<in> set (neighbors g' w) then 1 else 0)) = 2 * edge_count g'"
      unfolding nb nv ec by (rule graph_invD(3)[OF inv])
    show "ds = map (\<lambda>w. int (length (neighbors g' w))) (range1 (num_vertices g'))"
      if "all_degrees_cache g' = Some ds" for ds
      using that cache unfolding nb nv by simp
  qed
qed

lemma reachable_inv: "reachable g \<Longrightarrow> graph_inv g"
proof (induction rule: reachable.induct)
  case (init n cls g)
  then show ?case by (rule graph_inv_init)
next
  case (add g u v)
  then show ?case by (simp add: graph_inv_add_edge)
next
  case (degrees g ds g')
  then show ?case using graph_inv_degrees by blast
qed

subsection \<open>A rejected insertion changes nothing\<close>

text \<open>
  Claim C9. When \<open>u\<close> or \<open>v\<close> is outside \<open>[1, N]\<close>, \<open>add_edge u v\<close> raises the facade's
  \<open>ValueError\<close> (OutOfRange) and leaves the graph object as it was: same edge count, same
  neighbours of every vertex, same degree cache.
\<close>

theorem add_edge_atomic_on_failure:
  assumes "\<not> (1 \<le> u \<and> u \<le> num_vertices g) \<or> \<not> (1 \<le> v \<and> v \<le> num_vertices g)"
  shows "\<exists>g'. add_edge u v g = (Some ValueError, g') \<and> g' = g \<and> edge_count g' = edge_count g \<and>
     (\<forall>w. get_neighbors g' w = get_neighbors g w) \<and> all_degrees_cache g' = all_degrees_cache g"
  using assms by (auto simp: add_edge_def is_vertex_within_bounds_def)

subsection \<open>Adjacency symmetry\<close>

text \<open>
  Claim C4. In every graph reachable from the constructor by \<open>add_edge\<close> calls, accepted
  or rejected, on either representation, and for all vertices \<open>u\<close>, \<open>v\<close> in \<open>[1, N]\<close>:
  \<open>v\<close> is a neighbour of \<open>u\<close> exactly when \<open>u\<close> is a neighbour of \<open>v\<close>.
\<close>

theorem adjacency_symmetry:
  assumes "reachable g" "1 \<le> u" "u \<le> num_vertices g" "1 \<le> v" "v \<le> num_vertices g"
  shows "\<exists>nu nv. get_neighbors g u = Inr nu \<and> get_neighbors g v = Inr nv \<and>
           (v \<in> set nu \<longleftrightarrow> u \<in> set nv)"
proof -
  note inv = reachable_inv[OF assms(1)]
  note ok = graph_invD(1)[OF inv]
  have "v \<in> set (neighbors g u) \<longleftrightarrow> u \<in> set (neighbors g v)"
    using graph_invD(2)[OF inv, of u v] graph_invD(2)[OF inv, of v u] assms by blast
  with get_neighbors_ok(1)[OF ok assms(2,3)] get_neighbors_ok(1)[OF ok assms(4,5)]
  show ?thesis by blast
qed

subsection \<open>Idempotent insertion\<close>

lemma add_edge_present:
  assumes ok: "struct_ok g" and u: "1 \<le> u" "u \<le> num_vertices g" and v: "1 \<le> v" "v \<le> num_vertices g"
    and "v \<in> set (neighbors g u)" "all_degrees_cache g = None"
  shows "add_edge u v g = (None, g)"
proof -
  from add_edge_effect[OF ok u v] assms(6) obtain g' where g':
    "add_edge u v g = (None, g')" "num_vertices g' = num_vertices g" "all_degrees_cache g' = None"
    "representation g' = representation g" by blast
  have "g' = g" using g'(2,3,4) assms(7) by (intro graph.equality) simp_all
  with g'(1) show ?thesis by simp
qed

text \<open>
  Claim C5. For vertices \<open>u\<close>, \<open>v\<close> in \<open>[1, N]\<close> of a reachable graph, after \<open>add_edge u v\<close>
  a second \<open>add_edge u v\<close> and an \<open>add_edge v u\<close> both return normally and leave the whole
  graph object, hence the edge count and every neighbour set, as the first call left it.
\<close>

theorem add_edge_idempotent:
  assumes "reachable g" "1 \<le> u" "u \<le> num_vertices g" "1 \<le> v" "v \<le> num_vertices g"
  shows "\<exists>g1. add_edge u v g = (None, g1) \<and> add_edge u v g1 = (None, g1) \<and>
           add_edge v u g1 = (None, g1)"
proof -
  note inv = reachable_inv[OF assms(1)]
  note ok = graph_invD(1)[OF inv]
  from add_edge_effect[OF ok assms(2-5)] obtain g1 where g1:
    "add_edge u v g = (None, g1)" "struct_ok g1" "num_vertices g1 = num_vertices g" "all_degrees_cache g1 = None"
    "v \<in> set (neighbors g u) \<longrightarrow> representation g1 = representation g"
    "v \<notin> set (neighbors g u) \<longrightarrow> edge_count g1 = edge_count g + 1 \<and>
        (\<forall>w. 1 \<le> w \<and> w \<le> num_vertices g \<longrightarrow> set (neighbors g1 w) =
            set (neighbors g w) \<union> (if w = u then {v} else {}) \<union> (if w = v then {u} else {}))"
    by blast
  have inv1: "graph_inv g1" using graph_inv_add_edge[OF inv, of u v] g1(1) by simp
  have vu: "v \<in> set (neighbors g1 u)"
  proof (cases "v \<in> set (neighbors g u)")
    case True
    with g1(5) neighbors_cong[OF g1(3)] show ?thesis by simp
  next
    case False
    with g1(6) assms(2,3) show ?thesis by simp
  qed
  with graph_invD(2)[OF inv1, of u v] assms g1(3) have uv: "u \<in> set (neighbors g1 v)" by simp
  have "add_edge u v g1 = (None, g1)"
    using add_edge_present[OF g1(2) _ _ _ _ vu g1(4)] assms g1(3) by simp
  moreover have "add_edge v u g1 = (None, g1)"
    using add_edge_present[OF g1(2) _ _ _ _ uv g1(4)] assms g1(3) by simp
  ultimately show ?thesis using g1(1) by blast
qed

lemma int_length_filter:
  "int (length (filter P xs)) = sum_list (map (\<lambda>x. if P x then 1 else 0) xs)"
  by (induction xs) simp_all

lemma num_vertices_add_edge: "num_vertices (snd (add_edge u v g)) = num_vertices g"
  by (simp add: add_edge_def invalidate_degree_cache_def split: prod.splits option.splits)

lemma Graph_init_ok: "0 < n \<Longrightarrow> \<exists>g. Graph_init n cls = Inr g"
  by (cases cls) (simp_all add: Graph_init_def representation_init_def AdjacencyMatrix_init_def)

lemma Graph_init_projr: "0 < n \<Longrightarrow> Graph_init n cls = Inr (projr (Graph_init n cls))"
  using Graph_init_ok[of n cls] by auto

lemma reachable_self_loop_graph: "reachable (self_loop_graph cls)"
  unfolding self_loop_graph_def
  by (rule reachable.add, rule reachable.init[of 1 cls], rule Graph_init_projr, simp)

lemma reachable_example_graph: "reachable (example_graph cls)"
  unfolding example_graph_def
  by (rule reachable.add, rule reachable.add, rule reachable.add, rule reachable.init[of 5 cls],
      rule Graph_init_projr, simp)

lemma num_vertices_example_graph: "num_vertices (example_graph cls) = 5"
  using Graph_init_props(2)[OF Graph_init_projr[of 5 cls]]
  by (simp add: example_graph_def num_vertices_add_edge)

lemma num_vertices_self_loop_graph: "num_vertices (self_loop_graph cls) = 1"
  using Graph_init_props(2)[OF Graph_init_projr[of 1 cls]]
  by (simp add: self_loop_graph_def num_vertices_add_edge)

subsection \<open>Degrees and the edge count\<close>

text \<open>
  Claim C2, as amended. In every reachable graph, on either representation, the degree
  list has one entry per vertex, the entry of \<open>v\<close> is the length of \<open>get_neighbors v\<close>,
  and the degrees plus the number of vertices carrying a self-loop add up to twice the
  edge count. (A self-loop adds one to the edge count and one, not two, to a degree.)
\<close>

theorem degree_sum:
  assumes "reachable g"
  shows "\<exists>ds g'. calculate_all_degrees g = Inr (ds, g') \<and> int (length ds) = num_vertices g \<and>
     (\<forall>v. 1 \<le> v \<and> v \<le> num_vertices g \<longrightarrow>
        (\<exists>ns. get_neighbors g v = Inr ns \<and> ds ! nat (v - 1) = int (length ns))) \<and>
     sum_list ds + int (length (filter (\<lambda>v. v \<in> set (neighbors g v)) (range1 (num_vertices g))))
       = 2 * edge_count g"
proof -
  note inv = reachable_inv[OF assms]
  note ok = graph_invD(1)[OF inv]
  let ?n = "num_vertices g"
  let ?f = "\<lambda>w. int (length (neighbors g w))"
  let ?ds = "map ?f (range1 ?n)"
  from ok have n: "0 < ?n" by (simp add: struct_ok_def)
  have len: "int (length ?ds) = ?n" using n by (simp add: range1_def)
  have nth: "\<exists>ns. get_neighbors g v = Inr ns \<and> ?ds ! nat (v - 1) = int (length ns)"
    if v: "1 \<le> v" "v \<le> ?n" for v
  proof -
    have "nat (v - 1) < length [1..?n]" using v by simp
    then have "?ds ! nat (v - 1) = ?f ([1..?n] ! nat (v - 1))"
      unfolding range1_def by (rule nth_map)
    also have "[1..?n] ! nat (v - 1) = v" using v by (simp add: nth_upto)
    finally show ?thesis using get_neighbors_ok(1)[OF ok v] by simp
  qed
  have "sum_list ?ds + int (length (filter (\<lambda>v. v \<in> set (neighbors g v)) (range1 ?n)))
      = sum_list (map (\<lambda>w. ?f w + (if w \<in> set (neighbors g w) then 1 else 0)) (range1 ?n))"
    by (simp add: int_length_filter sum_list_addf)
  also have "\<dots> = (\<Sum>w \<in> {1..?n}. ?f w + (if w \<in> set (neighbors g w) then 1 else 0))"
    unfolding range1_def by (subst sum_list_distinct_conv_sum_set) simp_all
  also have "\<dots> = 2 * edge_count g" by (rule graph_invD(3)[OF inv])
  finally show ?thesis
    using calculate_all_degrees_ok[OF inv] len nth by blast
qed

lemmas init_defs = Graph_init_def representation_init_def AdjacencyList_init_def
  AdjacencyMatrix_init_def
lemmas edge_defs = add_edge_def is_vertex_within_bounds_def al_add_edge_def am_add_edge_def
  mat_get_def mat_set_def np_index_def set_add_def invalidate_degree_cache_def
lemmas query_defs = get_neighbors_def is_vertex_within_bounds_def al_get_neighbors_def
  am_get_neighbors_def mat_row_def np_index_def nonzero_plus1_def edge_count_def

lemma self_loop_graph_Sparse:
  "self_loop_graph AdjacencyList =
     \<lparr> num_vertices = 1,
       representation = Sparse \<lparr> al_num_vertices = 1,
          al_adj = (\<lambda>i. if 1 \<le> i \<and> i \<le> 1 then Some [] else None)(1 \<mapsto> [1]),
          al_edge_count = 1 \<rparr>,
       all_degrees_cache = None \<rparr>"
  by (simp add: self_loop_graph_def init_defs edge_defs)

text \<open>
  The claim as stated fails on a self-loop: one vertex, \<open>add_edge 1 1\<close>; the degree list is
  \<open>[1]\<close> and the edge count is \<open>1\<close>.
\<close>

theorem degree_sum_counterexample:
  "calculate_all_degrees (self_loop_graph AdjacencyList)
     = Inr ([1], (self_loop_graph AdjacencyList)\<lparr> all_degrees_cache := Some [1] \<rparr>)
   \<and> edge_count (self_loop_graph AdjacencyList) = 1
   \<and> sum_list [1] \<noteq> 2 * edge_count (self_loop_graph AdjacencyList)"
  by (simp add: self_loop_graph_Sparse calculate_all_degrees_def vertex_count_def range1_def
      upto.simps query_defs)


subsection \<open>The results above at concrete graphs\<close>

theorem add_edge_atomic_on_failure_witness:
  "num_vertices (example_graph AdjacencyMatrix) = 5 \<and>
   (\<exists>g'. add_edge 0 2 (example_graph AdjacencyMatrix) = (Some ValueError, g') \<and>
      g' = example_graph AdjacencyMatrix \<and>
      edge_count g' = edge_count (example_graph AdjacencyMatrix) \<and>
      (\<forall>w. get_neighbors g' w = get_neighbors (example_graph AdjacencyMatrix) w) \<and>
      all_degrees_cache g' = all_degrees_cache (example_graph AdjacencyMatrix))"
proof -
  have h: "\<not> (1 \<le> (0::int) \<and> 0 \<le> num_vertices (example_graph AdjacencyMatrix)) \<or>
    \<not> (1 \<le> (2::int) \<and> 2 \<le> num_vertices (example_graph AdjacencyMatrix))" by simp
  from add_edge_atomic_on_failure[OF h] num_vertices_example_graph[of AdjacencyMatrix]
  show ?thesis by blast
qed

theorem adjacency_symmetry_witness:
  "reachable (example_graph AdjacencyMatrix) \<and>
   (\<exists>nu nv. get_neighbors (example_graph AdjacencyMatrix) 2 = Inr nu \<and>
      get_neighbors (example_graph AdjacencyMatrix) 3 = Inr nv \<and> (3 \<in> set nu \<longleftrightarrow> 2 \<in> set nv))"
  using adjacency_symmetry[OF reachable_example_graph, of 2 AdjacencyMatrix 3]
    reachable_example_graph[of AdjacencyMatrix]
  by (simp add: num_vertices_example_graph)

theorem add_edge_idempotent_witness:
  "reachable (example_graph AdjacencyList) \<and>
   (\<exists>g1. add_edge 3 4 (example_graph AdjacencyList) = (None, g1) \<and>
      add_edge 3 4 g1 = (None, g1) \<and> add_edge 4 3 g1 = (None, g1))"
  using add_edge_idempotent[OF reachable_example_graph, of 3 AdjacencyList 4]
    reachable_example_graph[of AdjacencyList]
  by (simp add: num_vertices_example_graph)

theorem degree_sum_witness:
  "reachable (self_loop_graph AdjacencyMatrix) \<and>
   (\<exists>ds g'. calculate_all_degrees (self_loop_graph AdjacencyMatrix) = Inr (ds, g') \<and>
     int (length ds) = 1 \<and>
     (\<exists>ns. get_neighbors (self_loop_graph AdjacencyMatrix) 1 = Inr ns \<and>
        ds ! nat (1 - 1) = int (length ns)) \<and>
     sum_list ds + int (length (filter (\<lambda>v. v \<in> set (neighbors (self_loop_graph AdjacencyMatrix) v)) (range1 1)))
       = 2 * edge_count (self_loop_graph AdjacencyMatrix))"
  using degree_sum[OF reachable_self_loop_graph, of AdjacencyMatrix]
    reachable_self_loop_graph[of AdjacencyMatrix]
  unfolding num_vertices_self_loop_graph by fastforce

section \<open>Breadth-first search computes graph distances\<close>

lemma map_of_dict_set: "map_of (dict_set k x d) = (map_of d)(k \<mapsto> x)"
  by (simp add: dict_set_def update_conv')

lemma keys_dict_set: "k \<in> set (map fst d) \<Longrightarrow> map fst (dict_set k x d) = map fst d"
  by (simp add: dict_set_def update_keys)

lemma level_of_dict_set: "level_of (dict_set k x lv) v = (if v = k then x else level_of lv v)"
  by (simp add: level_of_def map_of_dict_set)

lemma in_keys_iff: "map fst d = range1 n \<Longrightarrow> (\<exists>x. map_of d v = Some x) \<longleftrightarrow> 1 \<le> v \<and> v \<le> n"
proof -
  assume a: "map fst d = range1 n"
  have "(\<exists>x. map_of d v = Some x) \<longleftrightarrow> v \<in> set (map fst d)"
    by (metis map_of_eq_None_iff not_Some_eq set_map)
  then show ?thesis unfolding a by (simp add: range1_def)
qed

lemma dict_get_level:
  "map fst lv = range1 n \<Longrightarrow> 1 \<le> v \<Longrightarrow> v \<le> n \<Longrightarrow> dict_get lv v = Inr (level_of lv v)"
  using in_keys_iff[of lv n v] by (auto simp: dict_get_def level_of_def)

lemma level_of_out: "map fst lv = range1 n \<Longrightarrow> level_of lv v \<noteq> - 1 \<Longrightarrow> 1 \<le> v \<and> v \<le> n"
  using in_keys_iff[of lv n v] by (auto simp: level_of_def split: option.splits)

lemma walk_snoc: "walk g n u w \<Longrightarrow> v \<in> set (neighbors g w) \<Longrightarrow> walk g (Suc n) u v"
proof (induction n arbitrary: u)
  case 0
  then show ?case by simp
next
  case (Suc n)
  from Suc.prems(1) obtain x where x: "x \<in> set (neighbors g u)" "walk g n x w" by auto
  from Suc.IH[OF x(2) Suc.prems(2)] x(1) show ?case by auto
qed

lemma walk_last: "walk g (Suc n) u v \<Longrightarrow> \<exists>w. walk g n u w \<and> v \<in> set (neighbors g w)"
proof (induction n arbitrary: u)
  case 0
  then show ?case by auto
next
  case (Suc n)
  from Suc.prems obtain x where x: "x \<in> set (neighbors g u)" "walk g (Suc n) x v" by auto
  from Suc.IH[OF x(2)] obtain w where w: "walk g n x w" "v \<in> set (neighbors g w)" by blast
  from x(1) w(1) have "walk g (Suc n) u w" by auto
  with w(2) show ?case by blast
qed

lemma bfs_invD:
  assumes "bfs_inv g s cur (ps, lv, q)"
  shows "map fst ps = range1 (num_vertices g)" "map fst lv = range1 (num_vertices g)"
    "level_of lv s = 0" "map_of ps s = Some None"
    "\<And>v. level_of lv v \<noteq> - 1 \<Longrightarrow> 0 \<le> level_of lv v \<and> is_distance g s v (nat (level_of lv v))"
    "\<And>v. 1 \<le> v \<Longrightarrow> v \<le> num_vertices g \<Longrightarrow> level_of lv v = - 1 \<Longrightarrow> map_of ps v = Some None"
    "\<And>v. v \<in> set (cur @ q) \<Longrightarrow> level_of lv v \<noteq> - 1"
    "sorted (map (level_of lv) (cur @ q))"
    "cur @ q \<noteq> [] \<Longrightarrow> level_of lv (last (cur @ q)) \<le> level_of lv (hd (cur @ q)) + 1"
    "\<And>v w. level_of lv v \<noteq> - 1 \<Longrightarrow> v \<notin> set (cur @ q) \<Longrightarrow> w \<in> set (neighbors g v) \<Longrightarrow>
       level_of lv w \<noteq> - 1"
  using assms unfolding bfs_inv_def by (simp_all del: set_append)

text \<open>Every vertex within the head's distance of the start has been visited.\<close>

lemma bfs_near_visited:
  assumes inv: "bfs_inv g s cur (ps, lv, q)" and ne: "cur @ q \<noteq> []"
    and w: "walk g k s x" and k: "int k \<le> level_of lv (hd (cur @ q))"
  shows "level_of lv x \<noteq> - 1"
  using w k
proof (induction k arbitrary: x)
  case 0
  then show ?case using bfs_invD(3)[OF inv] by simp
next
  case (Suc k)
  from walk_last[OF Suc.prems(1)] obtain y where y: "walk g k s y" "x \<in> set (neighbors g y)"
    by blast
  from Suc.IH[OF y(1)] Suc.prems(2) have vy: "level_of lv y \<noteq> - 1" by simp
  from bfs_invD(5)[OF inv vy] have "0 \<le> level_of lv y" "is_distance g s y (nat (level_of lv y))"
    by simp_all
  with y(1) have "nat (level_of lv y) \<le> k" by (auto simp: is_distance_def not_less[symmetric])
  with Suc.prems(2) \<open>0 \<le> level_of lv y\<close> have lt: "level_of lv y < level_of lv (hd (cur @ q))"
    by simp
  have "y \<notin> set (cur @ q)"
  proof
    assume "y \<in> set (cur @ q)"
    with bfs_invD(8)[OF inv] ne have "level_of lv (hd (cur @ q)) \<le> level_of lv y"
      by (cases "cur @ q") (auto simp del: set_append)
    with lt show False by simp
  qed
  from bfs_invD(10)[OF inv vy this y(2)] show ?case .
qed

lemma bfs_invI:
  assumes "map fst ps = range1 (num_vertices g)" "map fst lv = range1 (num_vertices g)"
    "level_of lv s = 0" "map_of ps s = Some None"
    "\<And>v. level_of lv v \<noteq> - 1 \<Longrightarrow> 0 \<le> level_of lv v \<and> is_distance g s v (nat (level_of lv v))"
    "\<And>v. 1 \<le> v \<Longrightarrow> v \<le> num_vertices g \<Longrightarrow> level_of lv v = - 1 \<Longrightarrow> map_of ps v = Some None"
    "\<And>v. v \<in> set (cur @ q) \<Longrightarrow> level_of lv v \<noteq> - 1"
    "sorted (map (level_of lv) (cur @ q))"
    "cur @ q \<noteq> [] \<Longrightarrow> level_of lv (last (cur @ q)) \<le> level_of lv (hd (cur @ q)) + 1"
    "\<And>v w. level_of lv v \<noteq> - 1 \<Longrightarrow> v \<notin> set (cur @ q) \<Longrightarrow> w \<in> set (neighbors g v) \<Longrightarrow>
       level_of lv w \<noteq> - 1"
  shows "bfs_inv g s cur (ps, lv, q)"
  unfolding bfs_inv_def prod.case
  apply (intro conjI)
  using assms(1) apply blast
  using assms(2) apply blast
  using assms(3) apply blast
  using assms(4) apply blast
  using assms(5) apply blast
  using assms(6) apply blast
  using assms(7) apply blast
  using assms(8) apply blast
  using assms(9) apply blast
  using assms(10) apply blast
  done

lemma sorted_le_last:
  "sorted xs \<Longrightarrow> x \<in> set xs \<Longrightarrow> (x::int) \<le> last xs"
  by (induction xs) (auto split: if_splits)

lemma bfs_discover:
  assumes ginv: "graph_inv g" and inv: "bfs_inv g s [u] (ps, lv, q)"
    and v: "v \<in> set (neighbors g u)" and unv: "level_of lv v = - 1"
  shows "bfs_inv g s [u] (dict_set v (Some u) ps, dict_set v (level_of lv u + 1) lv, q @ [v])"
proof -
  let ?n = "num_vertices g"
  let ?L = "level_of lv u"
  let ?ps = "dict_set v (Some u) ps" and ?lv = "dict_set v (?L + 1) lv"
  note I = bfs_invD[OF inv]
  have uvis: "?L \<noteq> - 1" using I(7)[of u] by simp
  with I(5)[of u] have L0: "0 \<le> ?L" and du: "is_distance g s u (nat ?L)" by simp_all
  from level_of_out[OF I(2) uvis] have ur: "1 \<le> u" "u \<le> ?n" by simp_all
  from graph_invD(2)[OF ginv ur v] have vr: "1 \<le> v" "v \<le> ?n" by simp_all
  have vk: "v \<in> set (map fst ps)" "v \<in> set (map fst lv)"
    using vr unfolding I(1) I(2) by (simp_all add: range1_def)
  have lev: "level_of ?lv x = (if x = v then ?L + 1 else level_of lv x)" for x
    by (rule level_of_dict_set)
  have old: "level_of ?lv x = level_of lv x" if "level_of lv x \<noteq> - 1" for x
    using that unv by (auto simp: lev)
  have vs: "v \<noteq> s" using unv I(3) by auto
  have vnotin: "v \<notin> set ([u] @ q)" using I(7)[of v] unv by blast
  have mapeq: "map (level_of ?lv) ([u] @ q) = map (level_of lv) ([u] @ q)"
    by (rule map_cong[OF refl]) (use I(7) old in blast)
  have le_all: "level_of lv x \<le> ?L + 1" if "x \<in> set ([u] @ q)" for x
  proof -
    have "level_of lv x \<in> set (map (level_of lv) ([u] @ q))" using that by auto
    from sorted_le_last[OF I(8) this]
    have "level_of lv x \<le> last (map (level_of lv) ([u] @ q))" .
    also have "\<dots> = level_of lv (last ([u] @ q))" by (rule last_map) simp
    also have "\<dots> \<le> level_of lv (hd ([u] @ q)) + 1" by (rule I(9)) simp
    finally show ?thesis by simp
  qed
  show ?thesis
  proof (rule bfs_invI)
    show "map fst ?ps = range1 ?n" using keys_dict_set[OF vk(1)] I(1) by simp
    show "map fst ?lv = range1 ?n" using keys_dict_set[OF vk(2)] I(2) by simp
    show "level_of ?lv s = 0" using vs I(3) by (simp add: lev)
    show "map_of ?ps s = Some None" using vs I(4) by (simp add: map_of_dict_set)
    show "0 \<le> level_of ?lv x \<and> is_distance g s x (nat (level_of ?lv x))"
      if "level_of ?lv x \<noteq> - 1" for x
    proof (cases "x = v")
      case False
      with that I(5)[of x] show ?thesis by (simp add: lev)
    next
      case True
      from du have "walk g (nat ?L) s u" by (simp add: is_distance_def)
      from walk_snoc[OF this v] have w: "walk g (Suc (nat ?L)) s v" .
      have "\<not> walk g k s v" if "k < Suc (nat ?L)" for k
      proof
        assume "walk g k s v"
        from bfs_near_visited[OF inv _ this] that L0 have "level_of lv v \<noteq> - 1" by simp
        with unv show False by simp
      qed
      with w have "is_distance g s v (Suc (nat ?L))" by (simp add: is_distance_def)
      moreover have "nat (?L + 1) = Suc (nat ?L)" using L0 by simp
      ultimately show ?thesis using True L0 by (simp add: lev)
    qed
    show "map_of ?ps x = Some None" if "1 \<le> x" "x \<le> ?n" "level_of ?lv x = - 1" for x
    proof -
      from that(3) L0 have "x \<noteq> v" by (auto simp: lev)
      with that I(6)[of x] show ?thesis by (simp add: lev map_of_dict_set)
    qed
    show "level_of ?lv x \<noteq> - 1" if "x \<in> set ([u] @ q @ [v])" for x
    proof (cases "x = v")
      case True
      then show ?thesis using L0 by (simp add: lev)
    next
      case False
      with that have "x \<in> set ([u] @ q)" by auto
      from I(7)[OF this] False show ?thesis by (simp add: lev)
    qed
    have "sorted (map (level_of ?lv) ([u] @ q) @ [?L + 1])"
      unfolding mapeq sorted_append using I(8) le_all by (auto simp del: set_append)
    then show "sorted (map (level_of ?lv) ([u] @ q @ [v]))" by (simp add: lev)
    show "level_of ?lv (last ([u] @ q @ [v])) \<le> level_of ?lv (hd ([u] @ q @ [v])) + 1"
      using old[OF uvis] by (simp add: lev)
    show "level_of ?lv w \<noteq> - 1"
      if "level_of ?lv x \<noteq> - 1" "x \<notin> set ([u] @ q @ [v])" "w \<in> set (neighbors g x)" for x w
    proof -
      from that(2) have xv: "x \<noteq> v" and xn: "x \<notin> set ([u] @ q)" by auto
      from that(1) xv have "level_of lv x \<noteq> - 1" by (simp add: lev)
      from I(10)[OF this xn that(3)] have "level_of lv w \<noteq> - 1" .
      from old[OF this] this show ?thesis by simp
    qed
  qed
qed

lemma finite_unvisited: "finite {v. map_of lv v = Some (x::int)}"
  by (rule finite_subset[OF _ finite_dom_map_of[of lv]]) auto

lemma bfs_measure_discover:
  assumes "map_of lv v = Some (- 1)" "l \<noteq> - 1"
  shows "Suc (bfs_measure (ps', dict_set v l lv, q @ [v])) = bfs_measure (ps, lv, q)"
proof -
  let ?A = "{x. map_of lv x = Some (- 1)}"
  have "{x. map_of (dict_set v l lv) x = Some (- 1)} = ?A - {v}"
    using assms(2) by (auto simp: map_of_dict_set)
  moreover have "v \<in> ?A" using assms(1) by simp
  then have "card (?A - {v}) = card ?A - 1" "0 < card ?A"
    using finite_unvisited[of lv "- 1"] by (auto simp: card_gt_0_iff)
  ultimately show ?thesis by (simp add: bfs_measure_def)
qed

lemma bfs_visit_inv:
  assumes ginv: "graph_inv g"
  shows "bfs_inv g s [u] (ps, lv, q) \<Longrightarrow> set vs \<subseteq> set (neighbors g u) \<Longrightarrow>
     \<exists>ps' lv' q'. bfs_visit u vs (ps, lv, q) = Inr (ps', lv', q') \<and> bfs_inv g s [u] (ps', lv', q') \<and>
       (\<forall>x. level_of lv x \<noteq> - 1 \<longrightarrow> level_of lv' x \<noteq> - 1) \<and>
       (\<forall>x \<in> set vs. level_of lv' x \<noteq> - 1) \<and>
       bfs_measure (ps', lv', q') \<le> bfs_measure (ps, lv, q)"
proof (induction vs arbitrary: ps lv q)
  case Nil
  then show ?case by simp
next
  case (Cons v vs)
  let ?n = "num_vertices g"
  note inv = Cons.prems(1)
  note I = bfs_invD[OF inv]
  from Cons.prems(2) have v: "v \<in> set (neighbors g u)" and vs: "set vs \<subseteq> set (neighbors g u)"
    by simp_all
  have uvis: "level_of lv u \<noteq> - 1" using I(7)[of u] by simp
  from level_of_out[OF I(2) uvis] have ur: "1 \<le> u" "u \<le> ?n" by simp_all
  from graph_invD(2)[OF ginv ur v] have vr: "1 \<le> v" "v \<le> ?n" by simp_all
  note gv = dict_get_level[OF I(2) vr] and gu = dict_get_level[OF I(2) ur]
  show ?case
  proof (cases "level_of lv v = - 1")
    case False
    from Cons.IH[OF inv vs] obtain ps' lv' q' where r:
      "bfs_visit u vs (ps, lv, q) = Inr (ps', lv', q')" "bfs_inv g s [u] (ps', lv', q')"
      "\<forall>x. level_of lv x \<noteq> - 1 \<longrightarrow> level_of lv' x \<noteq> - 1"
      "\<forall>x \<in> set vs. level_of lv' x \<noteq> - 1"
      "bfs_measure (ps', lv', q') \<le> bfs_measure (ps, lv, q)" by blast
    have "bfs_visit u (v # vs) (ps, lv, q) = Inr (ps', lv', q')"
      using False gv r(1) by simp
    moreover have "\<forall>x \<in> set (v # vs). level_of lv' x \<noteq> - 1" using r(3,4) False by simp
    ultimately show ?thesis using r(2,3,5) by blast
  next
    case True
    let ?ps = "dict_set v (Some u) ps" and ?lv = "dict_set v (level_of lv u + 1) lv"
    from bfs_discover[OF ginv inv v True] have inv1: "bfs_inv g s [u] (?ps, ?lv, q @ [v])" .
    from I(5)[OF uvis] have L0: "0 \<le> level_of lv u" by simp
    from Cons.IH[OF inv1 vs] obtain ps' lv' q' where r:
      "bfs_visit u vs (?ps, ?lv, q @ [v]) = Inr (ps', lv', q')" "bfs_inv g s [u] (ps', lv', q')"
      "\<forall>x. level_of ?lv x \<noteq> - 1 \<longrightarrow> level_of lv' x \<noteq> - 1"
      "\<forall>x \<in> set vs. level_of lv' x \<noteq> - 1"
      "bfs_measure (ps', lv', q') \<le> bfs_measure (?ps, ?lv, q @ [v])" by blast
    have run: "bfs_visit u (v # vs) (ps, lv, q) = Inr (ps', lv', q')"
      using True gv gu r(1) by simp
    have mono: "\<forall>x. level_of lv x \<noteq> - 1 \<longrightarrow> level_of lv' x \<noteq> - 1"
      using r(3) L0 by (auto simp: level_of_dict_set split: if_splits)
    have "level_of ?lv v \<noteq> - 1" using L0 by (simp add: level_of_dict_set)
    with r(3) have "level_of lv' v \<noteq> - 1" by blast
    with r(4) have all: "\<forall>x \<in> set (v # vs). level_of lv' x \<noteq> - 1" by simp
    have "map_of lv v = Some (- 1)"
      using True in_keys_iff[OF I(2), of v] vr by (auto simp: level_of_def)
    from bfs_measure_discover[OF this, of "level_of lv u + 1" ?ps q ps] L0
    have "bfs_measure (?ps, ?lv, q @ [v]) \<le> bfs_measure (ps, lv, q)" by simp
    with r(5) have "bfs_measure (ps', lv', q') \<le> bfs_measure (ps, lv, q)" by simp
    with run r(2) mono all show ?thesis by blast
  qed
qed

lemma sorted_tl_le: "sorted (x # xs) \<Longrightarrow> xs \<noteq> [] \<Longrightarrow> (x::int) \<le> hd xs"
  by (cases xs) simp_all

lemma bfs_loop_total:
  assumes ginv: "graph_inv g"
  shows "bfs_inv g s [] st \<Longrightarrow>
     \<exists>ps lv. bfs_loop g st = Some (Inr (ps, lv)) \<and> bfs_inv g s [] (ps, lv, [])"
proof (induction "bfs_measure st" arbitrary: st rule: less_induct)
  case less
  obtain ps lv q where st: "st = (ps, lv, q)" by (cases st) auto
  show ?case
  proof (cases q)
    case Nil
    with less.prems st show ?thesis by (subst bfs_loop.simps) simp
  next
    case (Cons u rest)
    let ?n = "num_vertices g"
    from less.prems st Cons have inv: "bfs_inv g s [u] (ps, lv, rest)"
      by (simp add: bfs_inv_def)
    note I = bfs_invD[OF inv]
    have uvis: "level_of lv u \<noteq> - 1" using I(7)[of u] by simp
    from level_of_out[OF I(2) uvis] have ur: "1 \<le> u" "u \<le> ?n" by simp_all
    note gn = get_neighbors_ok(1)[OF graph_invD(1)[OF ginv] ur]
    from bfs_visit_inv[OF ginv inv subset_refl] obtain ps' lv' q' where r:
      "bfs_visit u (neighbors g u) (ps, lv, rest) = Inr (ps', lv', q')"
      "bfs_inv g s [u] (ps', lv', q')"
      "\<forall>x \<in> set (neighbors g u). level_of lv' x \<noteq> - 1"
      "bfs_measure (ps', lv', q') \<le> bfs_measure (ps, lv, rest)" by blast
    note J = bfs_invD[OF r(2)]
    have inv': "bfs_inv g s [] (ps', lv', q')"
    proof (rule bfs_invI)
      show "map fst ps' = range1 ?n" "map fst lv' = range1 ?n" "level_of lv' s = 0"
        "map_of ps' s = Some None" by (rule J)+
      show "\<And>v. level_of lv' v \<noteq> - 1 \<Longrightarrow>
         0 \<le> level_of lv' v \<and> is_distance g s v (nat (level_of lv' v))" by (rule J(5))
      show "\<And>v. 1 \<le> v \<Longrightarrow> v \<le> ?n \<Longrightarrow> level_of lv' v = - 1 \<Longrightarrow> map_of ps' v = Some None"
        by (rule J(6))
      show "level_of lv' v \<noteq> - 1" if "v \<in> set ([] @ q')" for v
        using J(7)[of v] that by simp
      show "sorted (map (level_of lv') ([] @ q'))" using J(8) by simp
      show "level_of lv' (last ([] @ q')) \<le> level_of lv' (hd ([] @ q')) + 1" if "[] @ q' \<noteq> []"
      proof -
        from that have ne: "q' \<noteq> []" by simp
        from J(9) ne have "level_of lv' (last q') \<le> level_of lv' u + 1" by simp
        moreover from J(8) ne have "level_of lv' u \<le> level_of lv' (hd q')"
          using sorted_tl_le[of "level_of lv' u" "map (level_of lv') q'"] by (simp add: hd_map)
        ultimately show ?thesis by simp
      qed
      show "level_of lv' w \<noteq> - 1"
        if "level_of lv' v \<noteq> - 1" "v \<notin> set ([] @ q')" "w \<in> set (neighbors g v)" for v w
      proof (cases "v = u")
        case True
        with r(3) that(3) show ?thesis by blast
      next
        case False
        with that(2) have "v \<notin> set ([u] @ q')" by simp
        from J(10)[OF that(1) this that(3)] show ?thesis .
      qed
    qed
    have "bfs_measure (ps', lv', q') < bfs_measure st"
      using r(4) st Cons by (simp add: bfs_measure_def)
    from less.hyps[OF this inv'] obtain psf lvf where
      f: "bfs_loop g (ps', lv', q') = Some (Inr (psf, lvf))" "bfs_inv g s [] (psf, lvf, [])" by blast
    have "bfs_loop g st = bfs_loop g (ps', lv', q')"
      unfolding st Cons by (subst bfs_loop.simps) (simp add: gn r(1))
    with f show ?thesis by auto
  qed
qed

lemma map_of_const_range:
  "map_of (map (\<lambda>v. (v, c)) (range1 n)) x = (if 1 \<le> x \<and> x \<le> n then Some c else None)"
  by (auto simp: map_of_map_restrict restrict_map_def range1_def)

lemma bfs_inv_init:
  assumes s: "1 \<le> s" "s \<le> num_vertices g"
  shows "bfs_inv g s [] (map (\<lambda>v. (v, None)) (range1 (num_vertices g)),
           dict_set s 0 (map (\<lambda>v. (v, - 1)) (range1 (num_vertices g))), [s])"
proof -
  let ?n = "num_vertices g"
  let ?ps = "map (\<lambda>v. (v, None :: int option)) (range1 ?n)"
  let ?l0 = "map (\<lambda>v. (v, - 1 :: int)) (range1 ?n)"
  let ?lv = "dict_set s 0 ?l0"
  have sk: "s \<in> set (map fst ?l0)" using s by (simp add: range1_def comp_def)
  have lev: "level_of ?lv x = (if x = s then 0 else - 1)" for x
    by (simp add: level_of_dict_set) (simp add: level_of_def map_of_const_range)
  show ?thesis
  proof (rule bfs_invI)
    show "map fst ?ps = range1 ?n" by (simp add: comp_def)
    show "map fst ?lv = range1 ?n" using keys_dict_set[OF sk] by (simp add: comp_def)
    show "level_of ?lv s = 0" by (simp add: lev)
    show "map_of ?ps s = Some None" using s by (simp add: map_of_const_range)
    show "0 \<le> level_of ?lv v \<and> is_distance g s v (nat (level_of ?lv v))"
      if "level_of ?lv v \<noteq> - 1" for v
      using that by (auto simp: lev is_distance_def split: if_splits)
    show "map_of ?ps v = Some None" if "1 \<le> v" "v \<le> ?n" for v
      using that by (simp add: map_of_const_range)
    show "level_of ?lv v \<noteq> - 1" if "v \<in> set ([] @ [s])" for v
      using that by (simp add: lev)
    show "sorted (map (level_of ?lv) ([] @ [s]))" by simp
    show "level_of ?lv (last ([] @ [s])) \<le> level_of ?lv (hd ([] @ [s])) + 1" by simp
    show "level_of ?lv w \<noteq> - 1"
      if "level_of ?lv v \<noteq> - 1" "v \<notin> set ([] @ [s])" for v w
      using that by (simp add: lev split: if_splits)
  qed
qed

lemma bfs_final_connected:
  assumes inv: "bfs_inv g s [] (ps, lv, [])"
  shows "level_of lv x \<noteq> - 1 \<longleftrightarrow> connected g s x"
proof
  assume "level_of lv x \<noteq> - 1"
  from bfs_invD(5)[OF inv this] show "connected g s x"
    by (auto simp: connected_def is_distance_def)
next
  assume "connected g s x"
  then obtain k where "walk g k s x" by (auto simp: connected_def)
  then show "level_of lv x \<noteq> - 1"
  proof (induction k arbitrary: x)
    case 0
    then show ?case using bfs_invD(3)[OF inv] by simp
  next
    case (Suc k)
    from walk_last[OF Suc.prems] obtain y where y: "walk g k s y" "x \<in> set (neighbors g y)"
      by blast
    from bfs_invD(10)[OF inv Suc.IH[OF y(1)] _ y(2)] show ?case by simp
  qed
qed

lemma is_distance_unique: "is_distance g u v d \<Longrightarrow> is_distance g u v d' \<Longrightarrow> d = d'"
  unfolding is_distance_def by (meson linorder_neqE_nat)

lemma alist_eq_keys:
  assumes "map fst xs = ks" "distinct ks"
  shows "xs = map (\<lambda>k. (k, the (map_of xs k))) ks"
  using assms
proof (induction xs arbitrary: ks)
  case Nil
  then show ?case by simp
next
  case (Cons x xs)
  obtain k v where x: "x = (k, v)" by (cases x)
  from Cons.prems x obtain ks' where ks: "ks = k # ks'" "map fst xs = ks'" "distinct ks'" "k \<notin> set ks'"
    by auto
  from Cons.IH[OF ks(2,3)] have "xs = map (\<lambda>k. (k, the (map_of xs k))) ks'" .
  moreover have "map (\<lambda>j. (j, the (map_of (x # xs) j))) ks' = map (\<lambda>k. (k, the (map_of xs k))) ks'"
    by (rule map_cong[OF refl]) (use ks(4) x in auto)
  ultimately show ?case using x ks(1) by simp
qed

lemma levels_as_list:
  assumes "map fst lv = range1 n"
  shows "lv = map (\<lambda>v. (v, level_of lv v)) (range1 n)"
proof -
  have d: "distinct (range1 n)" by (simp add: range1_def)
  have "lv = map (\<lambda>k. (k, the (map_of lv k))) (range1 n)" by (rule alist_eq_keys[OF assms d])
  also have "\<dots> = map (\<lambda>v. (v, level_of lv v)) (range1 n)"
  proof (rule map_cong[OF refl])
    fix x assume "x \<in> set (range1 n)"
    then have "1 \<le> x \<and> x \<le> n" by (simp add: range1_def)
    with in_keys_iff[OF assms, of x] show "(x, the (map_of lv x)) = (x, level_of lv x)"
      by (auto simp: level_of_def)
  qed
  finally show ?thesis .
qed

lemma bfs_correct:
  assumes ginv: "graph_inv g" and s: "1 \<le> s" "s \<le> num_vertices g"
  shows "\<exists>ps lv. breadth_first_search g s = Some (Inr (ps, lv)) \<and> bfs_inv g s [] (ps, lv, [])"
proof -
  from bfs_loop_total[OF ginv bfs_inv_init[OF s]] show ?thesis
    using s by (simp add: breadth_first_search_def is_vertex_within_bounds_def vertex_count_def Let_def)
qed

lemma bfs_level_values:
  assumes inv: "bfs_inv g s [] (ps, lv, [])" and v: "1 \<le> v" "v \<le> num_vertices g"
  shows "map_of lv v = Some (level_of lv v)"
    "level_of lv v = - 1 \<longleftrightarrow> \<not> connected g s v"
    "is_distance g s v d \<Longrightarrow> level_of lv v = int d"
proof -
  show "map_of lv v = Some (level_of lv v)"
    using in_keys_iff[OF bfs_invD(2)[OF inv], of v] v by (auto simp: level_of_def)
  show "level_of lv v = - 1 \<longleftrightarrow> \<not> connected g s v"
    using bfs_final_connected[OF inv, of v] by blast
  assume d: "is_distance g s v d"
  then have "connected g s v" by (auto simp: connected_def is_distance_def)
  with bfs_final_connected[OF inv, of v] have "level_of lv v \<noteq> - 1" by simp
  from bfs_invD(5)[OF inv this] is_distance_unique[OF d] show "level_of lv v = int d"
    by auto
qed

lemma neighbors_out_of_range:
  "\<not> (1 \<le> v \<and> v \<le> num_vertices g) \<Longrightarrow> neighbors g v = []"
  by (simp add: neighbors_def get_neighbors_def is_vertex_within_bounds_def)

lemma built_alike_props:
  assumes "built_alike gs gd"
  shows "graph_inv gs \<and> graph_inv gd \<and> num_vertices gs = num_vertices gd \<and>
     (\<forall>w. set (neighbors gs w) = set (neighbors gd w))"
  using assms
proof (induction rule: built_alike.induct)
  case (init n gs gd)
  note ps = Graph_init_props[OF init(1)] and pd = Graph_init_props[OF init(2)]
  have "neighbors gs w = []" "neighbors gd w = []" for w
    using ps(6)[of w] pd(6)[of w] neighbors_out_of_range[of w gs] neighbors_out_of_range[of w gd]
      ps(2) pd(2) by auto
  with graph_inv_init[OF init(1)] graph_inv_init[OF init(2)] ps(2) pd(2) show ?case by simp
next
  case (add gs gd u v)
  let ?n = "num_vertices gs"
  from add.IH have igs: "graph_inv gs" and igd: "graph_inv gd" and nv: "num_vertices gd = ?n"
    and nb: "\<And>w. set (neighbors gs w) = set (neighbors gd w)" by simp_all
  have gi: "graph_inv (snd (add_edge u v gs))" "graph_inv (snd (add_edge u v gd))"
    using graph_inv_add_edge[OF igs] graph_inv_add_edge[OF igd] by simp_all
  have nvs: "num_vertices (snd (add_edge u v gs)) = num_vertices (snd (add_edge u v gd))"
    by (simp add: num_vertices_add_edge nv)
  have "set (neighbors (snd (add_edge u v gs)) w) = set (neighbors (snd (add_edge u v gd)) w)" for w
  proof (cases "1 \<le> u \<and> u \<le> ?n \<and> 1 \<le> v \<and> v \<le> ?n")
    case False
    then show ?thesis using add_edge_rejected[of u gs v] add_edge_rejected[of u gd v] nv nb
      by simp
  next
    case True
    then have u: "1 \<le> u" "u \<le> ?n" and v: "1 \<le> v" "v \<le> ?n" by simp_all
    from add_edge_effect[OF graph_invD(1)[OF igs] u v] obtain gs' where s:
      "add_edge u v gs = (None, gs')" "num_vertices gs' = ?n"
      "v \<in> set (neighbors gs u) \<longrightarrow> representation gs' = representation gs"
      "v \<notin> set (neighbors gs u) \<longrightarrow>
        (\<forall>w. 1 \<le> w \<and> w \<le> ?n \<longrightarrow> set (neighbors gs' w) =
            set (neighbors gs w) \<union> (if w = u then {v} else {}) \<union> (if w = v then {u} else {}))"
      by blast
    from add_edge_effect[OF graph_invD(1)[OF igd], of u v] u v nv obtain gd' where d:
      "add_edge u v gd = (None, gd')" "num_vertices gd' = ?n"
      "v \<in> set (neighbors gd u) \<longrightarrow> representation gd' = representation gd"
      "v \<notin> set (neighbors gd u) \<longrightarrow>
        (\<forall>w. 1 \<le> w \<and> w \<le> ?n \<longrightarrow> set (neighbors gd' w) =
            set (neighbors gd w) \<union> (if w = u then {v} else {}) \<union> (if w = v then {u} else {}))"
      by auto
    have "set (neighbors gs' w) = set (neighbors gd' w)"
    proof (cases "1 \<le> w \<and> w \<le> ?n")
      case False
      then show ?thesis
        using neighbors_out_of_range[of w gs'] neighbors_out_of_range[of w gd'] s(2) d(2) by simp
    next
      case w: True
      show ?thesis
      proof (cases "v \<in> set (neighbors gs u)")
        case True
        with s(3) d(3) nb[of u] have "representation gs' = representation gs"
          "representation gd' = representation gd" by simp_all
        with neighbors_cong[of gs' gs] neighbors_cong[of gd' gd] s(2) d(2) nv nb[of w]
        show ?thesis by simp
      next
        case False
        with s(4) d(4) nb[of u] nb[of w] w show ?thesis by simp
      qed
    qed
    with s(1) d(1) show ?thesis by simp
  qed
  with gi nvs show ?case by simp
qed

lemma built_alike_reachable: "built_alike gs gd \<Longrightarrow> reachable gs \<and> reachable gd"
proof (induction rule: built_alike.induct)
  case (init n gs gd)
  then show ?case by (auto intro: reachable.init)
next
  case (add gs gd u v)
  then show ?case by (auto intro: reachable.add)
qed

lemma walk_cong:
  assumes "\<And>w. set (neighbors g w) = set (neighbors g' w)"
  shows "walk g n u v = walk g' n u v"
  by (induction n arbitrary: u) (simp_all add: assms)

lemma bfs_levels_cong:
  assumes inv: "bfs_inv g s [] (ps, lv, [])" and inv': "bfs_inv g' s [] (ps', lv', [])"
    and nv: "num_vertices g' = num_vertices g"
    and nb: "\<And>w. set (neighbors g w) = set (neighbors g' w)"
  shows "lv' = lv"
proof -
  have lev: "level_of lv' x = level_of lv x" for x
  proof (cases "level_of lv x = - 1")
    case True
    with bfs_final_connected[OF inv, of x] have "\<not> connected g s x" by simp
    then have "\<not> connected g' s x" by (simp add: connected_def walk_cong[OF nb])
    with bfs_final_connected[OF inv', of x] True show ?thesis by simp
  next
    case False
    from bfs_invD(5)[OF inv False] have d: "is_distance g s x (nat (level_of lv x))"
      and l0: "0 \<le> level_of lv x" by simp_all
    from d have d': "is_distance g' s x (nat (level_of lv x))"
      by (simp add: is_distance_def walk_cong[OF nb])
    then have "connected g' s x" by (auto simp: connected_def is_distance_def)
    with bfs_final_connected[OF inv', of x] have "level_of lv' x \<noteq> - 1" by simp
    from bfs_invD(5)[OF inv' this] have l0': "0 \<le> level_of lv' x"
      and d2: "is_distance g' s x (nat (level_of lv' x))" by simp_all
    from is_distance_unique[OF d' d2] have "nat (level_of lv x) = nat (level_of lv' x)" .
    with l0 l0' show ?thesis by simp
  qed
  have "lv' = map (\<lambda>v. (v, level_of lv' v)) (range1 (num_vertices g))"
    using levels_as_list[OF bfs_invD(2)[OF inv']] nv by simp
  also have "\<dots> = map (\<lambda>v. (v, level_of lv v)) (range1 (num_vertices g))"
    by (simp add: lev)
  also have "\<dots> = lv" using levels_as_list[OF bfs_invD(2)[OF inv]] by simp
  finally show ?thesis .
qed

text \<open>
  Claim C1. For every reachable graph and every start vertex \<open>s\<close> in \<open>[1, N]\<close>,
  \<open>breadth_first_search\<close> returns; in the levels it returns \<open>s\<close> has level \<open>0\<close>, a
  vertex \<open>v\<close> of \<open>[1, N]\<close> has level \<open>- 1\<close> exactly when no path leads from \<open>s\<close> to \<open>v\<close>, and
  otherwise its level is the length of a shortest path from \<open>s\<close>. The graph built with
  the same calls on the other representation returns the same levels.
\<close>

theorem bfs_levels_shortest:
  assumes "reachable g" "1 \<le> s" "s \<le> num_vertices g"
  shows "\<exists>ps lv. breadth_first_search g s = Some (Inr (ps, lv)) \<and>
     map_of lv s = Some 0 \<and>
     (\<forall>v. 1 \<le> v \<and> v \<le> num_vertices g \<longrightarrow>
        (map_of lv v = Some (- 1) \<longleftrightarrow> \<not> connected g s v) \<and>
        (\<forall>d. is_distance g s v d \<longrightarrow> map_of lv v = Some (int d))) \<and>
     (\<forall>g'. built_alike g g' \<or> built_alike g' g \<longrightarrow>
        (\<exists>ps'. breadth_first_search g' s = Some (Inr (ps', lv))))"
proof -
  note ginv = reachable_inv[OF assms(1)]
  from bfs_correct[OF ginv assms(2,3)] obtain ps lv where
    r: "breadth_first_search g s = Some (Inr (ps, lv))" and inv: "bfs_inv g s [] (ps, lv, [])"
    by blast
  have s0: "map_of lv s = Some 0"
    using bfs_level_values(1)[OF inv assms(2,3)] bfs_invD(3)[OF inv] by simp
  have vals: "(map_of lv v = Some (- 1) \<longleftrightarrow> \<not> connected g s v) \<and>
        (\<forall>d. is_distance g s v d \<longrightarrow> map_of lv v = Some (int d))"
    if v: "1 \<le> v \<and> v \<le> num_vertices g" for v
    using bfs_level_values[OF inv, of v] v by auto
  have alike: "\<exists>ps'. breadth_first_search g' s = Some (Inr (ps', lv))"
    if "built_alike g g' \<or> built_alike g' g" for g'
  proof -
    from that built_alike_props[of g g'] built_alike_props[of g' g]
    have p: "graph_inv g'" "num_vertices g' = num_vertices g"
      "\<And>w. set (neighbors g w) = set (neighbors g' w)" by auto
    from bfs_correct[OF p(1), of s] assms(2,3) p(2) obtain ps' lv' where
      r': "breadth_first_search g' s = Some (Inr (ps', lv'))" and inv': "bfs_inv g' s [] (ps', lv', [])"
      by auto
    from bfs_levels_cong[OF inv inv' p(2,3)] r' show ?thesis by simp
  qed
  from r s0 vals alike show ?thesis by blast
qed

lemma built_alike_example_graph:
  "built_alike (example_graph AdjacencyList) (example_graph AdjacencyMatrix)"
  unfolding example_graph_def
  by (rule built_alike.add, rule built_alike.add, rule built_alike.add,
      rule built_alike.init[of 5]; rule Graph_init_projr; simp)

lemma ex_d: "is_distance (example_graph AdjacencyList) 1 3 2"
  unfolding is_distance_def
proof (intro conjI allI impI)
  show "walk (example_graph AdjacencyList) 2 1 3" by code_simp
  fix k :: nat assume "k < 2"
  then have "k = 0 \<or> k = 1" by auto
  moreover have "\<not> walk (example_graph AdjacencyList) 0 1 3" by code_simp
  moreover have "\<not> walk (example_graph AdjacencyList) 1 1 3" by code_simp
  ultimately show "\<not> walk (example_graph AdjacencyList) k 1 3" by auto
qed

theorem bfs_levels_shortest_witness:
  "reachable (example_graph AdjacencyList) \<and>
   (\<exists>ps lv. breadth_first_search (example_graph AdjacencyList) 1 = Some (Inr (ps, lv)) \<and>
      map_of lv 1 = Some 0 \<and>
      (map_of lv 4 = Some (- 1) \<longleftrightarrow> \<not> connected (example_graph AdjacencyList) 1 4) \<and>
      is_distance (example_graph AdjacencyList) 1 3 2 \<and> map_of lv 3 = Some 2 \<and>
      (\<exists>ps'. breadth_first_search (example_graph AdjacencyMatrix) 1 = Some (Inr (ps', lv))))"
proof -
  have n: "num_vertices (example_graph AdjacencyList) = 5" by (rule num_vertices_example_graph)
  have "1 \<le> (1::int)" "1 \<le> num_vertices (example_graph AdjacencyList)" by (simp_all add: n)
  from bfs_levels_shortest[OF reachable_example_graph this]
  obtain ps lv where r0:
    "breadth_first_search (example_graph AdjacencyList) 1 = Some (Inr (ps, lv)) \<and>
     map_of lv 1 = Some 0 \<and>
     (\<forall>v. 1 \<le> v \<and> v \<le> num_vertices (example_graph AdjacencyList) \<longrightarrow>
        (map_of lv v = Some (- 1) \<longleftrightarrow> \<not> connected (example_graph AdjacencyList) 1 v) \<and>
        (\<forall>d. is_distance (example_graph AdjacencyList) 1 v d \<longrightarrow> map_of lv v = Some (int d))) \<and>
     (\<forall>g'. built_alike (example_graph AdjacencyList) g' \<or> built_alike g' (example_graph AdjacencyList) \<longrightarrow>
        (\<exists>ps'. breadth_first_search g' 1 = Some (Inr (ps', lv))))"
    by blast
  then have r: "breadth_first_search (example_graph AdjacencyList) 1 = Some (Inr (ps, lv))"
    "map_of lv 1 = Some 0"
    "\<And>v. 1 \<le> v \<and> v \<le> 5 \<Longrightarrow>
        (map_of lv v = Some (- 1) \<longleftrightarrow> \<not> connected (example_graph AdjacencyList) 1 v) \<and>
        (\<forall>d. is_distance (example_graph AdjacencyList) 1 v d \<longrightarrow> map_of lv v = Some (int d))"
    "\<And>g'. built_alike (example_graph AdjacencyList) g' \<or> built_alike g' (example_graph AdjacencyList) \<Longrightarrow>
        (\<exists>ps'. breadth_first_search g' 1 = Some (Inr (ps', lv)))"
    unfolding n by blast+
  from r(3)[of 3] ex_d have "map_of lv 3 = Some 2" by auto
  moreover from r(3)[of 4]
  have "map_of lv 4 = Some (- 1) \<longleftrightarrow> \<not> connected (example_graph AdjacencyList) 1 4" by simp
  moreover from r(4)[of "example_graph AdjacencyMatrix"] built_alike_example_graph
  have "\<exists>ps'. breadth_first_search (example_graph AdjacencyMatrix) 1 = Some (Inr (ps', lv))"
    by simp
  ultimately show ?thesis using r(1,2) ex_d reachable_example_graph[of AdjacencyList] by blast
qed

section \<open>Distance\<close>

text \<open>
  Every vertex argument but one is compared with the bounds first, and a vertex outside
  them is answered with \<open>ValueError\<close>. The second argument of \<open>get_distance\<close> is only
  used as a dictionary key.
\<close>

lemma out_of_range_is_ValueError:
  assumes "\<not> (1 \<le> w \<and> w \<le> num_vertices g)"
  shows "fst (add_edge w v g) = Some ValueError" "fst (add_edge u w g) = Some ValueError"
    "get_neighbors g w = Inl ValueError"
    "breadth_first_search g w = Some (Inl ValueError)"
    "depth_first_search g w = Some (Inl ValueError)"
    "get_distance g w v = Some (Inl ValueError)"
  using assms
  by (auto simp: add_edge_def get_neighbors_def breadth_first_search_def depth_first_search_def
      get_distance_def is_vertex_within_bounds_def vertex_count_def)

lemma get_distance_in_range:
  assumes "reachable g" "1 \<le> u" "u \<le> num_vertices g" "1 \<le> v" "v \<le> num_vertices g"
  shows "\<exists>l. get_distance g u v = Some (Inr l)"
proof -
  from bfs_correct[OF reachable_inv[OF assms(1)] assms(2,3)] obtain ps lv where
    r: "breadth_first_search g u = Some (Inr (ps, lv))" and inv: "bfs_inv g u [] (ps, lv, [])"
    by blast
  from dict_get_level[OF bfs_invD(2)[OF inv] assms(4,5)] r show ?thesis
    by (simp add: get_distance_def)
qed

lemma get_distance_second_out_of_range:
  assumes "reachable g" "1 \<le> u" "u \<le> num_vertices g" "\<not> (1 \<le> v \<and> v \<le> num_vertices g)"
  shows "get_distance g u v = Some (Inl KeyError)"
proof -
  from bfs_correct[OF reachable_inv[OF assms(1)] assms(2,3)] obtain ps lv where
    r: "breadth_first_search g u = Some (Inr (ps, lv))" and inv: "bfs_inv g u [] (ps, lv, [])"
    by blast
  from in_keys_iff[OF bfs_invD(2)[OF inv], of v] assms(4) have "map_of lv v = None" by auto
  with r show ?thesis by (simp add: get_distance_def dict_get_def)
qed

text \<open>
  Claim C3 does not hold of \<open>get_distance\<close>: its second argument is never compared
  with the bounds, so a vertex outside \<open>[1, N]\<close> there ends in the \<open>KeyError\<close> of the
  dictionary read \<open>levels[v]\<close>, not in the \<open>ValueError\<close> that every other vertex argument
  meets (the first argument of \<open>get_distance\<close> included).
\<close>

theorem get_distance_second_argument:
  "get_distance (example_graph AdjacencyList) 1 6 = Some (Inl KeyError) \<and>
   get_distance (example_graph AdjacencyMatrix) 1 6 = Some (Inl KeyError) \<and>
   get_distance (example_graph AdjacencyList) 6 1 = Some (Inl ValueError)"
  by code_simp

subsection \<open>Diameter\<close>

lemma py_max_Max: "xs \<noteq> [] \<Longrightarrow> py_max xs = Inr (Max (set xs))"
proof (cases xs)
  case Nil
  then show "xs \<noteq> [] \<Longrightarrow> ?thesis" by simp
next
  case (Cons a list)
  have "fold max list a = Max (set (a # list))" by (rule Max.set_eq_fold[symmetric])
  with Cons show ?thesis by (simp add: py_max_def)
qed

lemma bfs_eccentricity:
  assumes ginv: "graph_inv g" and i: "1 \<le> i" "i \<le> num_vertices g"
  shows "\<exists>ps lv c. breadth_first_search g i = Some (Inr (ps, lv)) \<and>
     py_max (dict_values lv) = Inr c \<and> 0 \<le> c \<and>
     (\<exists>v. 1 \<le> v \<and> v \<le> num_vertices g \<and> is_distance g i v (nat c)) \<and>
     (\<forall>v k. is_distance g i v k \<longrightarrow> int k \<le> c)"
proof -
  let ?n = "num_vertices g"
  from bfs_correct[OF ginv i] obtain ps lv where
    r: "breadth_first_search g i = Some (Inr (ps, lv))" and inv: "bfs_inv g i [] (ps, lv, [])"
    by blast
  note I = bfs_invD[OF inv]
  have vals: "dict_values lv = map (level_of lv) (range1 ?n)"
    unfolding dict_values_def by (subst levels_as_list[OF I(2)]) (simp add: comp_def)
  have ne: "dict_values lv \<noteq> []" using i unfolding vals by (simp add: range1_def)
  let ?S = "set (dict_values lv)"
  let ?c = "Max ?S"
  have S: "?S = level_of lv ` {1..?n}" unfolding vals by (simp add: range1_def)
  have fin: "finite ?S" by simp
  have "level_of lv i \<in> ?S" unfolding S using i by simp
  then have "level_of lv i \<le> ?c" by (rule Max_ge[OF fin])
  with I(3) have c0: "0 \<le> ?c" by simp
  have "?c \<in> ?S" using ne by (intro Max_in) simp_all
  then obtain v where v: "1 \<le> v" "v \<le> ?n" "level_of lv v = ?c" unfolding S by auto
  with c0 have "level_of lv v \<noteq> - 1" by simp
  from I(5)[OF this] v(3) have real: "is_distance g i v (nat ?c)" by simp
  have ub: "int k \<le> ?c" if d: "is_distance g i w k" for w k
  proof -
    from d have "connected g i w" by (auto simp: connected_def is_distance_def)
    with bfs_final_connected[OF inv, of w] have vis: "level_of lv w \<noteq> - 1" by simp
    from level_of_out[OF I(2) vis] have w: "1 \<le> w" "w \<le> ?n" by simp_all
    from bfs_level_values(3)[OF inv w d] have "level_of lv w = int k" .
    moreover have "level_of lv w \<in> ?S" unfolding S using w by simp
    then have "level_of lv w \<le> ?c" by (rule Max_ge[OF fin])
    ultimately show ?thesis by simp
  qed
  from r py_max_Max[OF ne] c0 v(1,2) real ub show ?thesis by blast
qed

lemma diameter_loop_correct:
  assumes ginv: "graph_inv g"
  shows "\<forall>i \<in> set is. 1 \<le> i \<and> i \<le> num_vertices g \<Longrightarrow> 0 \<le> m \<Longrightarrow>
     \<exists>d. diameter_loop g is m = Some (Inr d) \<and> m \<le> d \<and>
       (d = m \<or> (\<exists>u \<in> set is. \<exists>v. 1 \<le> v \<and> v \<le> num_vertices g \<and> is_distance g u v (nat d))) \<and>
       (\<forall>u \<in> set is. \<forall>v k. is_distance g u v k \<longrightarrow> int k \<le> d)"
proof (induction "is" arbitrary: m)
  case Nil
  then show ?case by simp
next
  case (Cons i "is")
  from Cons.prems(1) have i: "1 \<le> i" "i \<le> num_vertices g"
    and rest: "\<forall>j \<in> set is. 1 \<le> j \<and> j \<le> num_vertices g" by simp_all
  from bfs_eccentricity[OF ginv i] obtain ps lv c where e:
    "breadth_first_search g i = Some (Inr (ps, lv))" "py_max (dict_values lv) = Inr c" "0 \<le> c"
    "\<exists>v. 1 \<le> v \<and> v \<le> num_vertices g \<and> is_distance g i v (nat c)"
    "\<forall>v k. is_distance g i v k \<longrightarrow> int k \<le> c" by blast
  let ?m = "if c > m then c else m"
  have m': "0 \<le> ?m" "m \<le> ?m" "c \<le> ?m" using Cons.prems(2) by simp_all
  from Cons.IH[OF rest m'(1)] obtain d where d:
    "diameter_loop g is ?m = Some (Inr d)" "?m \<le> d"
    "d = ?m \<or> (\<exists>u \<in> set is. \<exists>v. 1 \<le> v \<and> v \<le> num_vertices g \<and> is_distance g u v (nat d))"
    "\<forall>u \<in> set is. \<forall>v k. is_distance g u v k \<longrightarrow> int k \<le> d" by blast
  have run: "diameter_loop g (i # is) m = Some (Inr d)" using e(1,2) d(1) by simp
  have le: "m \<le> d" using m'(2) d(2) by linarith
  have real: "d = m \<or> (\<exists>u \<in> set (i # is). \<exists>v. 1 \<le> v \<and> v \<le> num_vertices g \<and> is_distance g u v (nat d))"
  proof (cases "d = ?m")
    case False
    with d(3) show ?thesis by auto
  next
    case True
    show ?thesis
    proof (cases "c > m")
      case True
      with \<open>d = ?m\<close> have "d = c" by simp
      with e(4) show ?thesis by auto
    next
      case False
      with \<open>d = ?m\<close> show ?thesis by simp
    qed
  qed
  have ub: "\<forall>u \<in> set (i # is). \<forall>v k. is_distance g u v k \<longrightarrow> int k \<le> d"
  proof (intro ballI allI impI)
    fix u v k assume u: "u \<in> set (i # is)" and dist: "is_distance g u v k"
    show "int k \<le> d"
    proof (cases "u = i")
      case True
      with e(5) dist have "int k \<le> c" by blast
      with m'(3) d(2) show ?thesis by linarith
    next
      case False
      with u d(4) dist show ?thesis by auto
    qed
  qed
  from run le real ub show ?case by blast
qed

text \<open>
  Claim C7. On every reachable graph \<open>get_diameter\<close> returns a number \<open>d \<ge> 0\<close> that is the
  graph distance of some pair of vertices and bounds the distance of every pair that a
  path joins; pairs without a path contribute nothing. With a single vertex and no edge
  it returns \<open>0\<close>.
\<close>

theorem diameter_is_max_distance:
  assumes "reachable g"
  shows "\<exists>d. get_diameter g = Some (Inr d) \<and> 0 \<le> d \<and>
     (\<exists>u v. 1 \<le> u \<and> u \<le> num_vertices g \<and> 1 \<le> v \<and> v \<le> num_vertices g \<and>
        is_distance g u v (nat d)) \<and>
     (\<forall>u v k. 1 \<le> u \<and> u \<le> num_vertices g \<and> 1 \<le> v \<and> v \<le> num_vertices g \<and>
        is_distance g u v k \<longrightarrow> int k \<le> d) \<and>
     (num_vertices g = 1 \<and> edge_count g = 0 \<longrightarrow> d = 0)"
proof -
  let ?n = "num_vertices g"
  note ginv = reachable_inv[OF assms]
  from graph_invD(1)[OF ginv] have n: "0 < ?n" by (simp add: struct_ok_def)
  have rng: "\<forall>i \<in> set (range1 ?n). 1 \<le> i \<and> i \<le> ?n" by (simp add: range1_def)
  from diameter_loop_correct[OF ginv rng, of 0] obtain d where d:
    "get_diameter g = Some (Inr d)" "0 \<le> d"
    "d = 0 \<or> (\<exists>u \<in> set (range1 ?n). \<exists>v. 1 \<le> v \<and> v \<le> ?n \<and> is_distance g u v (nat d))"
    "\<forall>u \<in> set (range1 ?n). \<forall>v k. is_distance g u v k \<longrightarrow> int k \<le> d"
    by (auto simp: get_diameter_def vertex_count_def)
  have real: "\<exists>u v. 1 \<le> u \<and> u \<le> ?n \<and> 1 \<le> v \<and> v \<le> ?n \<and> is_distance g u v (nat d)"
  proof (cases "d = 0")
    case True
    have "is_distance g 1 1 0" by (simp add: is_distance_def)
    with True n show ?thesis by (intro exI[of _ 1]) auto
  next
    case False
    with d(3) obtain u v where "u \<in> set (range1 ?n)" "1 \<le> v" "v \<le> ?n"
      "is_distance g u v (nat d)" by blast
    then show ?thesis by (intro exI[of _ u] exI[of _ v]) (simp add: range1_def)
  qed
  have ub: "\<forall>u v k. 1 \<le> u \<and> u \<le> ?n \<and> 1 \<le> v \<and> v \<le> ?n \<and> is_distance g u v k \<longrightarrow> int k \<le> d"
    using d(4) by (auto simp: range1_def)
  have one: "num_vertices g = 1 \<and> edge_count g = 0 \<longrightarrow> d = 0"
  proof
    assume a: "num_vertices g = 1 \<and> edge_count g = 0"
    from real a obtain u v where "u = 1" "v = 1" "is_distance g u v (nat d)" by auto
    then have "\<forall>k < nat d. \<not> walk g k 1 1" by (simp add: is_distance_def)
    moreover have "walk g 0 1 1" by simp
    ultimately have "\<not> 0 < nat d" by blast
    with d(2) show "d = 0" by simp
  qed
  from d(1,2) real ub one show ?thesis by blast
qed

theorem diameter_is_max_distance_witness:
  "reachable (example_graph AdjacencyMatrix) \<and>
   get_diameter (example_graph AdjacencyMatrix) = Some (Inr 2) \<and>
   (\<exists>d. get_diameter (example_graph AdjacencyMatrix) = Some (Inr d) \<and> 0 \<le> d \<and>
     (\<exists>u v. 1 \<le> u \<and> u \<le> 5 \<and> 1 \<le> v \<and> v \<le> 5 \<and>
        is_distance (example_graph AdjacencyMatrix) u v (nat d)))"
proof -
  have e: "get_diameter (example_graph AdjacencyMatrix) = Some (Inr 2)" by code_simp
  from diameter_is_max_distance[OF reachable_example_graph, of AdjacencyMatrix]
    reachable_example_graph[of AdjacencyMatrix] e
  show ?thesis unfolding num_vertices_example_graph by blast
qed

section \<open>Depth-first search\<close>

lemma dfs_invD:
  assumes "dfs_inv g s (ps, lv, stack, visited)"
  shows "map fst ps = range1 (num_vertices g)" "map fst lv = range1 (num_vertices g)"
    "map_of ps s = Some None" "map_of lv s = Some 0" "s \<in> set visited"
    "\<And>x. x \<in> set visited \<Longrightarrow> 1 \<le> x \<and> x \<le> num_vertices g \<and> connected g s x \<and> 0 \<le> level_of lv x"
    "\<And>x. 1 \<le> x \<Longrightarrow> x \<le> num_vertices g \<Longrightarrow> x \<notin> set visited \<Longrightarrow>
       map_of ps x = Some None \<and> map_of lv x = Some (- 1)"
    "\<And>u l. (u, l) \<in> set stack \<Longrightarrow> u \<in> set visited \<and> 0 \<le> l"
  using assms unfolding dfs_inv_def by auto

lemma dfs_invI:
  assumes "map fst ps = range1 (num_vertices g)" "map fst lv = range1 (num_vertices g)"
    "map_of ps s = Some None" "map_of lv s = Some 0" "s \<in> set visited"
    "\<And>x. x \<in> set visited \<Longrightarrow> 1 \<le> x \<and> x \<le> num_vertices g \<and> connected g s x \<and> 0 \<le> level_of lv x"
    "\<And>x. 1 \<le> x \<Longrightarrow> x \<le> num_vertices g \<Longrightarrow> x \<notin> set visited \<Longrightarrow>
       map_of ps x = Some None \<and> map_of lv x = Some (- 1)"
    "\<And>u l. (u, l) \<in> set stack \<Longrightarrow> u \<in> set visited \<and> 0 \<le> l"
  shows "dfs_inv g s (ps, lv, stack, visited)"
  unfolding dfs_inv_def prod.case
  apply (intro conjI)
  using assms(1) apply blast
  using assms(2) apply blast
  using assms(3) apply blast
  using assms(4) apply blast
  using assms(5) apply blast
  using assms(6) apply blast
  using assms(7) apply blast
  using assms(8) apply blast
  done

lemma connected_step: "connected g s u \<Longrightarrow> v \<in> set (neighbors g u) \<Longrightarrow> connected g s v"
  unfolding connected_def using walk_snoc by blast

lemma dfs_visit_inv:
  assumes ginv: "graph_inv g"
  shows "dfs_inv g s (ps, lv, stack, visited) \<Longrightarrow> u \<in> set visited \<Longrightarrow> 0 \<le> l \<Longrightarrow>
     set vs \<subseteq> set (neighbors g u) \<Longrightarrow>
     dfs_inv g s (dfs_visit u l vs (ps, lv, stack, visited)) \<and>
     dfs_measure g (dfs_visit u l vs (ps, lv, stack, visited)) \<le> dfs_measure g (ps, lv, stack, visited)"
proof (induction vs arbitrary: ps lv stack visited)
  case Nil
  then show ?case by simp
next
  case (Cons v vs)
  let ?n = "num_vertices g"
  note inv = Cons.prems(1)
  note I = dfs_invD[OF inv]
  from Cons.prems(4) have v: "v \<in> set (neighbors g u)" and vs: "set vs \<subseteq> set (neighbors g u)"
    by simp_all
  from I(6)[OF Cons.prems(2)] have ur: "1 \<le> u" "u \<le> ?n" and cu: "connected g s u" by simp_all
  from graph_invD(2)[OF ginv ur v] have vr: "1 \<le> v" "v \<le> ?n" by simp_all
  show ?case
  proof (cases "v \<in> set visited")
    case True
    with Cons.IH[OF inv Cons.prems(2,3) vs] show ?thesis by simp
  next
    case False
    let ?ps = "dict_set v (Some u) ps" and ?lv = "dict_set v (l + 1) lv"
    let ?stack = "stack @ [(v, l + 1)]" and ?visited = "set_add v visited"
    have vis: "?visited = visited @ [v]" using False by (simp add: set_add_def)
    have vk: "v \<in> set (map fst ps)" "v \<in> set (map fst lv)"
      using vr unfolding I(1) I(2) by (simp_all add: range1_def)
    have vs_ne: "v \<noteq> s" using False I(5) by auto
    have inv1: "dfs_inv g s (?ps, ?lv, ?stack, ?visited)"
    proof (rule dfs_invI)
      show "map fst ?ps = range1 ?n" using keys_dict_set[OF vk(1)] I(1) by simp
      show "map fst ?lv = range1 ?n" using keys_dict_set[OF vk(2)] I(2) by simp
      show "map_of ?ps s = Some None" using vs_ne I(3) by (simp add: map_of_dict_set)
      show "map_of ?lv s = Some 0" using vs_ne I(4) by (simp add: map_of_dict_set)
      show "s \<in> set ?visited" using I(5) by (simp add: vis)
      show "1 \<le> x \<and> x \<le> ?n \<and> connected g s x \<and> 0 \<le> level_of ?lv x" if "x \<in> set ?visited" for x
      proof (cases "x = v")
        case True
        with vr connected_step[OF cu v] Cons.prems(3) show ?thesis
          by (simp add: level_of_dict_set)
      next
        case False
        with that have "x \<in> set visited" by (simp add: vis)
        from I(6)[OF this] False show ?thesis by (simp add: level_of_dict_set)
      qed
      show "map_of ?ps x = Some None \<and> map_of ?lv x = Some (- 1)"
        if "1 \<le> x" "x \<le> ?n" "x \<notin> set ?visited" for x
      proof -
        from that(3) have "x \<noteq> v" "x \<notin> set visited" by (simp_all add: vis)
        with I(7)[OF that(1,2)] show ?thesis by (simp add: map_of_dict_set)
      qed
      show "a \<in> set ?visited \<and> 0 \<le> b" if "(a, b) \<in> set ?stack" for a b
        using that I(8)[of a b] Cons.prems(3) by (auto simp: vis)
    qed
    have eq: "{1..?n} - set ?visited = ({1..?n} - set visited) - {v}"
      unfolding vis by auto
    have "v \<in> {1..?n} - set visited" using vr False by simp
    then have "card ({1..?n} - set ?visited) < card ({1..?n} - set visited)"
      unfolding eq by (intro card_Diff1_less) simp_all
    then have m1: "dfs_measure g (?ps, ?lv, ?stack, ?visited) \<le> dfs_measure g (ps, lv, stack, visited)"
      by (simp add: dfs_measure_def)
    have "u \<in> set ?visited" using Cons.prems(2) by (simp add: vis)
    from Cons.IH[OF inv1 this Cons.prems(3) vs] m1 False show ?thesis by simp
  qed
qed

lemma sorted_reverse_cong:
  assumes "distinct xs" "distinct ys" "set xs = set ys"
  shows "sorted_reverse xs = sorted_reverse ys"
proof -
  have "sort xs = sort ys"
    by (rule sorted_distinct_set_unique) (simp_all add: assms)
  then show ?thesis by (simp add: sorted_reverse_def)
qed

lemma set_sorted_reverse: "set (sorted_reverse xs) = set xs"
  by (simp add: sorted_reverse_def)

lemma dfs_loop_total:
  assumes ginv: "graph_inv g" and ok': "struct_ok g'"
    and nv: "num_vertices g' = num_vertices g"
    and agree: "\<And>u. 1 \<le> u \<Longrightarrow> u \<le> num_vertices g \<Longrightarrow>
       sorted_reverse (neighbors g' u) = sorted_reverse (neighbors g u)"
  shows "dfs_inv g s st \<Longrightarrow>
     \<exists>ps lv visited. dfs_loop g st = Some (Inr (ps, lv)) \<and> dfs_loop g' st = Some (Inr (ps, lv)) \<and>
       dfs_inv g s (ps, lv, [], visited)"
proof (induction "dfs_measure g st" arbitrary: st rule: less_induct)
  case less
  obtain ps lv stack visited where st: "st = (ps, lv, stack, visited)" by (cases st) auto
  show ?case
  proof (cases "stack = []")
    case True
    have "dfs_loop g st = Some (Inr (ps, lv))" "dfs_loop g' st = Some (Inr (ps, lv))"
      unfolding st True by (subst dfs_loop.simps, simp)+
    with less.prems st True show ?thesis by blast
  next
    case False
    let ?n = "num_vertices g"
    obtain u l where ul: "last stack = (u, l)" by (cases "last stack") auto
    from less.prems st have inv: "dfs_inv g s (ps, lv, stack, visited)" by simp
    note I = dfs_invD[OF inv]
    from False ul have "(u, l) \<in> set stack" using last_in_set[of stack] by simp
    from I(8)[OF this] have uv: "u \<in> set visited" and l0: "0 \<le> l" by simp_all
    from I(6)[OF uv] have ur: "1 \<le> u" "u \<le> ?n" by simp_all
    note gn = get_neighbors_ok(1)[OF graph_invD(1)[OF ginv] ur]
    have gn': "get_neighbors g' u = Inr (neighbors g' u)"
      using get_neighbors_ok(1)[OF ok', of u] ur nv by simp
    let ?st0 = "(ps, lv, butlast stack, visited)"
    let ?st1 = "dfs_visit u l (sorted_reverse (neighbors g u)) ?st0"
    have inv0: "dfs_inv g s ?st0"
    proof (rule dfs_invI)
      show "(a, b) \<in> set (butlast stack) \<Longrightarrow> a \<in> set visited \<and> 0 \<le> b" for a b
        using I(8)[of a b] by (auto dest: in_set_butlastD)
    qed (use I in blast)+
    have sub: "set (sorted_reverse (neighbors g u)) \<subseteq> set (neighbors g u)"
      by (simp add: set_sorted_reverse)
    from dfs_visit_inv[OF ginv inv0 uv l0 sub]
    have inv1: "dfs_inv g s ?st1" and m: "dfs_measure g ?st1 \<le> dfs_measure g ?st0" by simp_all
    have "dfs_measure g ?st0 < dfs_measure g st"
      using False unfolding st by (simp add: dfs_measure_def)
    with m have "dfs_measure g ?st1 < dfs_measure g st" by simp
    from less.hyps[OF this inv1] obtain psf lvf visf where f:
      "dfs_loop g ?st1 = Some (Inr (psf, lvf))" "dfs_loop g' ?st1 = Some (Inr (psf, lvf))"
      "dfs_inv g s (psf, lvf, [], visf)" by blast
    have "dfs_loop g st = dfs_loop g ?st1"
      unfolding st by (subst dfs_loop.simps) (simp add: False ul gn)
    moreover have "dfs_loop g' st = dfs_loop g' ?st1"
      unfolding st by (subst dfs_loop.simps) (simp add: False ul gn' agree[OF ur])
    ultimately show ?thesis using f by auto
  qed
qed

lemma dfs_inv_init:
  assumes s: "1 \<le> s" "s \<le> num_vertices g"
  shows "dfs_inv g s (dict_set s None (map (\<lambda>v. (v, None)) (range1 (num_vertices g))),
           dict_set s 0 (map (\<lambda>v. (v, - 1)) (range1 (num_vertices g))), [(s, 0)], [s])"
proof -
  let ?n = "num_vertices g"
  let ?p0 = "map (\<lambda>v. (v, None :: int option)) (range1 ?n)"
  let ?l0 = "map (\<lambda>v. (v, - 1 :: int)) (range1 ?n)"
  have sk: "s \<in> set (map fst ?p0)" "s \<in> set (map fst ?l0)"
    using s by (simp_all add: range1_def comp_def)
  show ?thesis
  proof (rule dfs_invI)
    show "map fst (dict_set s None ?p0) = range1 ?n" using keys_dict_set[OF sk(1)] by (simp add: comp_def)
    show "map fst (dict_set s 0 ?l0) = range1 ?n" using keys_dict_set[OF sk(2)] by (simp add: comp_def)
    show "map_of (dict_set s None ?p0) s = Some None" by (simp add: map_of_dict_set)
    show "map_of (dict_set s 0 ?l0) s = Some 0" by (simp add: map_of_dict_set)
    show "s \<in> set [s]" by simp
    show "1 \<le> x \<and> x \<le> ?n \<and> connected g s x \<and> 0 \<le> level_of (dict_set s 0 ?l0) x"
      if "x \<in> set [s]" for x
    proof -
      have "walk g 0 s s" by simp
      then have "connected g s s" unfolding connected_def by blast
      with that s show ?thesis by (simp add: level_of_dict_set)
    qed
    show "map_of (dict_set s None ?p0) x = Some None \<and> map_of (dict_set s 0 ?l0) x = Some (- 1)"
      if "1 \<le> x" "x \<le> ?n" "x \<notin> set [s]" for x
      using that by (simp add: map_of_dict_set map_of_const_range)
    show "a \<in> set [s] \<and> 0 \<le> b" if "(a, b) \<in> set [(s, 0::int)]" for a and b :: int
      using that by simp
  qed
qed

lemma dfs_correct:
  assumes ginv: "graph_inv g" and ok': "struct_ok g'"
    and nv: "num_vertices g' = num_vertices g"
    and agree: "\<And>u. 1 \<le> u \<Longrightarrow> u \<le> num_vertices g \<Longrightarrow>
       sorted_reverse (neighbors g' u) = sorted_reverse (neighbors g u)"
    and s: "1 \<le> s" "s \<le> num_vertices g"
  shows "\<exists>ps lv visited. depth_first_search g s = Some (Inr (ps, lv)) \<and>
     depth_first_search g' s = Some (Inr (ps, lv)) \<and> dfs_inv g s (ps, lv, [], visited)"
  using dfs_loop_total[OF ginv ok' nv agree dfs_inv_init[OF s]] s nv
  by (simp add: depth_first_search_def vertex_count_def Let_def)

text \<open>
  Claim C6. For two graphs made with the same vertex count and the same sequence of
  \<open>add_edge\<close> calls, one on the adjacency list and one on the adjacency matrix, and a
  start vertex in \<open>[1, N]\<close>, \<open>depth_first_search\<close> returns on both, with the same
  parents and the same depths: the neighbours are sorted before they are pushed.
\<close>

theorem dfs_representation_invariant:
  assumes "built_alike gs gd" "1 \<le> s" "s \<le> num_vertices gs"
  shows "\<exists>ps lv. depth_first_search gs s = Some (Inr (ps, lv)) \<and>
           depth_first_search gd s = Some (Inr (ps, lv))"
proof -
  from built_alike_props[OF assms(1)] have p: "graph_inv gs" "graph_inv gd"
    "num_vertices gd = num_vertices gs" "\<And>w. set (neighbors gs w) = set (neighbors gd w)"
    by simp_all
  note oks = graph_invD(1)[OF p(1)] and okd = graph_invD(1)[OF p(2)]
  have agree: "sorted_reverse (neighbors gd u) = sorted_reverse (neighbors gs u)"
    if u: "1 \<le> u" "u \<le> num_vertices gs" for u
    using get_neighbors_ok(2)[OF okd, of u] get_neighbors_ok(2)[OF oks u] u p(3) p(4)[of u]
    by (intro sorted_reverse_cong) simp_all
  from dfs_correct[OF p(1) okd p(3) agree assms(2,3)] show ?thesis by blast
qed

theorem dfs_representation_invariant_witness:
  "built_alike (example_graph AdjacencyList) (example_graph AdjacencyMatrix) \<and>
   depth_first_search (example_graph AdjacencyList) 2 =
     Some (Inr ([(1, Some 2), (2, None), (3, Some 2), (4, None), (5, None)],
                [(1, 1), (2, 0), (3, 1), (4, - 1), (5, - 1)])) \<and>
   (\<exists>ps lv. depth_first_search (example_graph AdjacencyList) 2 = Some (Inr (ps, lv)) \<and>
      depth_first_search (example_graph AdjacencyMatrix) 2 = Some (Inr (ps, lv)))"
proof -
  have e: "depth_first_search (example_graph AdjacencyList) 2 =
     Some (Inr ([(1, Some 2), (2, None), (3, Some 2), (4, None), (5, None)],
                [(1, 1), (2, 0), (3, 1), (4, - 1), (5, - 1)]))" by code_simp
  have "1 \<le> (2::int)" "2 \<le> num_vertices (example_graph AdjacencyList)"
    by (simp_all add: num_vertices_example_graph)
  from dfs_representation_invariant[OF built_alike_example_graph this] e
    built_alike_example_graph
  show ?thesis by blast
qed

text \<open>
  Claim C10. On a reachable graph and a start vertex in \<open>[1, N]\<close>, both searches return
  dictionaries whose keys are exactly \<open>1..N\<close>. The start vertex has parent \<open>None\<close> and
  level \<open>0\<close>; a vertex that no path joins to the start is present with parent \<open>None\<close> and
  level \<open>- 1\<close>; and any vertex left at level \<open>- 1\<close> has parent \<open>None\<close>, as the start has.
\<close>

theorem traversal_maps_total:
  assumes "reachable g" "1 \<le> s" "s \<le> num_vertices g"
  shows "\<exists>ps lv ps' lv'.
     breadth_first_search g s = Some (Inr (ps, lv)) \<and>
     depth_first_search g s = Some (Inr (ps', lv')) \<and>
     map fst ps = range1 (num_vertices g) \<and> map fst lv = range1 (num_vertices g) \<and>
     map fst ps' = range1 (num_vertices g) \<and> map fst lv' = range1 (num_vertices g) \<and>
     map_of ps s = Some None \<and> map_of lv s = Some 0 \<and>
     map_of ps' s = Some None \<and> map_of lv' s = Some 0 \<and>
     (\<forall>v. 1 \<le> v \<and> v \<le> num_vertices g \<and> \<not> connected g s v \<longrightarrow>
        map_of ps v = Some None \<and> map_of lv v = Some (- 1) \<and>
        map_of ps' v = Some None \<and> map_of lv' v = Some (- 1)) \<and>
     (\<forall>v. 1 \<le> v \<and> v \<le> num_vertices g \<longrightarrow>
        (map_of lv v = Some (- 1) \<longrightarrow> map_of ps v = Some None) \<and>
        (map_of lv' v = Some (- 1) \<longrightarrow> map_of ps' v = Some None))"
proof -
  let ?n = "num_vertices g"
  note ginv = reachable_inv[OF assms(1)]
  from bfs_correct[OF ginv assms(2,3)] obtain ps lv where
    b: "breadth_first_search g s = Some (Inr (ps, lv))" and binv: "bfs_inv g s [] (ps, lv, [])"
    by blast
  from dfs_correct[OF ginv graph_invD(1)[OF ginv] refl refl assms(2,3)] obtain ps' lv' visited where
    d: "depth_first_search g s = Some (Inr (ps', lv'))" and dinv: "dfs_inv g s (ps', lv', [], visited)"
    by blast
  note I = bfs_invD[OF binv] and J = dfs_invD[OF dinv]
  have bs: "map_of lv s = Some 0"
    using bfs_level_values(1)[OF binv assms(2,3)] I(3) by simp
  have blev: "map_of lv v = Some (- 1) \<longrightarrow> map_of ps v = Some None"
    if v: "1 \<le> v" "v \<le> ?n" for v
    using I(6)[OF v] bfs_level_values(1)[OF binv v] by auto
  have dlev: "map_of lv' v = Some (- 1) \<longrightarrow> map_of ps' v = Some None"
    if v: "1 \<le> v" "v \<le> ?n" for v
  proof
    assume m: "map_of lv' v = Some (- 1)"
    have "v \<notin> set visited"
    proof
      assume "v \<in> set visited"
      from J(6)[OF this] m show False by (simp add: level_of_def)
    qed
    from J(7)[OF v this] show "map_of ps' v = Some None" by simp
  qed
  have un: "map_of ps v = Some None \<and> map_of lv v = Some (- 1) \<and>
        map_of ps' v = Some None \<and> map_of lv' v = Some (- 1)"
    if v: "1 \<le> v" "v \<le> ?n" and nc: "\<not> connected g s v" for v
  proof -
    from bfs_level_values(1,2)[OF binv v] nc have "map_of lv v = Some (- 1)" by simp
    moreover from this blev[OF v] have "map_of ps v = Some None" by simp
    moreover have "v \<notin> set visited" using J(6)[of v] nc by blast
    from J(7)[OF v this] have "map_of ps' v = Some None \<and> map_of lv' v = Some (- 1)" .
    ultimately show ?thesis by simp
  qed
  show ?thesis
    apply (rule exI[of _ ps], rule exI[of _ lv], rule exI[of _ ps'], rule exI[of _ lv'])
    using b d I(1,2,4) J(1,2,3,4) bs un blev dlev by blast
qed

theorem traversal_maps_total_witness:
  "reachable (example_graph AdjacencyMatrix) \<and>
   breadth_first_search (example_graph AdjacencyMatrix) 4 =
     Some (Inr ([(1, None), (2, None), (3, None), (4, None), (5, Some 4)],
                [(1, - 1), (2, - 1), (3, - 1), (4, 0), (5, 1)])) \<and>
   depth_first_search (example_graph AdjacencyMatrix) 4 =
     Some (Inr ([(1, None), (2, None), (3, None), (4, None), (5, Some 4)],
                [(1, - 1), (2, - 1), (3, - 1), (4, 0), (5, 1)])) \<and>
   (\<exists>ps lv ps' lv'.
     breadth_first_search (example_graph AdjacencyMatrix) 4 = Some (Inr (ps, lv)) \<and>
     depth_first_search (example_graph AdjacencyMatrix) 4 = Some (Inr (ps', lv')) \<and>
     map fst ps = range1 5 \<and> map fst lv = range1 5 \<and>
     map fst ps' = range1 5 \<and> map fst lv' = range1 5 \<and>
     map_of ps 4 = Some None \<and> map_of lv 4 = Some 0 \<and>
     map_of ps' 4 = Some None \<and> map_of lv' 4 = Some 0)"
proof -
  have e1: "breadth_first_search (example_graph AdjacencyMatrix) 4 =
     Some (Inr ([(1, None), (2, None), (3, None), (4, None), (5, Some 4)],
                [(1, - 1), (2, - 1), (3, - 1), (4, 0), (5, 1)]))" by code_simp
  have e2: "depth_first_search (example_graph AdjacencyMatrix) 4 =
     Some (Inr ([(1, None), (2, None), (3, None), (4, None), (5, Some 4)],
                [(1, - 1), (2, - 1), (3, - 1), (4, 0), (5, 1)]))" by code_simp
  have h: "1 \<le> (4::int)" "4 \<le> num_vertices (example_graph AdjacencyMatrix)"
    by (simp_all add: num_vertices_example_graph)
  from traversal_maps_total[OF reachable_example_graph h]
  have "\<exists>ps lv ps' lv'.
     breadth_first_search (example_graph AdjacencyMatrix) 4 = Some (Inr (ps, lv)) \<and>
     depth_first_search (example_graph AdjacencyMatrix) 4 = Some (Inr (ps', lv')) \<and>
     map fst ps = range1 5 \<and> map fst lv = range1 5 \<and>
     map fst ps' = range1 5 \<and> map fst lv' = range1 5 \<and>
     map_of ps 4 = Some None \<and> map_of lv 4 = Some 0 \<and>
     map_of ps' 4 = Some None \<and> map_of lv' 4 = Some 0"
    unfolding num_vertices_example_graph by blast
  with e1 e2 reachable_example_graph[of AdjacencyMatrix] show ?thesis by blast
qed

section \<open>Connected components\<close>

lemma cc_invD:
  assumes "cc_inv g old v (visited, cn, queue)"
  shows "set visited = old \<union> set cn" "old \<inter> set cn = {}" "distinct cn" "v \<in> set cn"
    "\<And>x. x \<in> set cn \<Longrightarrow> v \<le> x \<and> x \<le> num_vertices g" "set queue \<subseteq> set cn"
  using assms unfolding cc_inv_def by auto

lemma cc_invI:
  assumes "set visited = old \<union> set cn" "old \<inter> set cn = {}" "distinct cn" "v \<in> set cn"
    "\<And>x. x \<in> set cn \<Longrightarrow> v \<le> x \<and> x \<le> num_vertices g" "set queue \<subseteq> set cn"
  shows "cc_inv g old v (visited, cn, queue)"
  using assms unfolding cc_inv_def by auto

lemma cc_visit_inv:
  assumes ginv: "graph_inv g" and v1: "1 \<le> v"
    and low: "\<And>w. 1 \<le> w \<Longrightarrow> w < v \<Longrightarrow> w \<in> old"
    and u: "1 \<le> u" "u \<le> num_vertices g"
  shows "cc_inv g old v (visited, cn, queue) \<Longrightarrow> set ns \<subseteq> set (neighbors g u) \<Longrightarrow>
     cc_inv g old v (cc_visit ns (visited, cn, queue)) \<and>
     cc_measure g (cc_visit ns (visited, cn, queue)) \<le> cc_measure g (visited, cn, queue)"
proof (induction ns arbitrary: visited cn queue)
  case Nil
  then show ?case by simp
next
  case (Cons x ns)
  let ?n = "num_vertices g"
  note inv = Cons.prems(1)
  note I = cc_invD[OF inv]
  from Cons.prems(2) have x: "x \<in> set (neighbors g u)" and ns: "set ns \<subseteq> set (neighbors g u)"
    by simp_all
  from graph_invD(2)[OF ginv u x] have xr: "1 \<le> x" "x \<le> ?n" by simp_all
  show ?case
  proof (cases "x \<in> set visited")
    case True
    with Cons.IH[OF inv ns] show ?thesis by simp
  next
    case False
    with I(1) have xo: "x \<notin> old" and xc: "x \<notin> set cn" by auto
    from xo low[OF xr(1)] have vx: "v \<le> x" by force
    have a1: "set_add x visited = visited @ [x]" using False by (simp add: set_add_def)
    have a2: "set_add x cn = cn @ [x]" using xc by (simp add: set_add_def)
    have inv1: "cc_inv g old v (visited @ [x], cn @ [x], queue @ [x])"
    proof (rule cc_invI)
      show "set (visited @ [x]) = old \<union> set (cn @ [x])" using I(1) by auto
      show "old \<inter> set (cn @ [x]) = {}" using I(2) xo by auto
      show "distinct (cn @ [x])" using I(3) xc by simp
      show "v \<in> set (cn @ [x])" using I(4) by simp
      show "v \<le> y \<and> y \<le> ?n" if "y \<in> set (cn @ [x])" for y
        using that I(5)[of y] vx xr by auto
      show "set (queue @ [x]) \<subseteq> set (cn @ [x])" using I(6) by auto
    qed
    have eq: "{1..?n} - set (visited @ [x]) = ({1..?n} - set visited) - {x}" by auto
    have "x \<in> {1..?n} - set visited" using xr False by simp
    then have "card ({1..?n} - set (visited @ [x])) < card ({1..?n} - set visited)"
      unfolding eq by (intro card_Diff1_less) simp_all
    then have m1: "cc_measure g (visited @ [x], cn @ [x], queue @ [x]) \<le> cc_measure g (visited, cn, queue)"
      by (simp add: cc_measure_def)
    from Cons.IH[OF inv1 ns] m1 False show ?thesis by (simp add: a1 a2)
  qed
qed

lemma cc_loop_total:
  assumes ginv: "graph_inv g" and v1: "1 \<le> v"
    and low: "\<And>w. 1 \<le> w \<Longrightarrow> w < v \<Longrightarrow> w \<in> old"
  shows "cc_inv g old v st \<Longrightarrow>
     \<exists>visited cn. cc_loop g st = Some (Inr (visited, cn)) \<and> cc_inv g old v (visited, cn, [])"
proof (induction "cc_measure g st" arbitrary: st rule: less_induct)
  case less
  obtain visited cn queue where st: "st = (visited, cn, queue)" by (cases st) auto
  show ?case
  proof (cases queue)
    case Nil
    with less.prems st show ?thesis by (subst cc_loop.simps) simp
  next
    case (Cons u rest)
    let ?n = "num_vertices g"
    from less.prems st Cons have inv: "cc_inv g old v (visited, cn, u # rest)" by simp
    note I = cc_invD[OF inv]
    from I(6) have "u \<in> set cn" by simp
    from I(5)[OF this] v1 have ur: "1 \<le> u" "u \<le> ?n" by simp_all
    note gn = get_neighbors_ok(1)[OF graph_invD(1)[OF ginv] ur]
    have inv0: "cc_inv g old v (visited, cn, rest)"
      by (rule cc_invI) (use I in auto)
    let ?st1 = "cc_visit (neighbors g u) (visited, cn, rest)"
    from cc_visit_inv[OF ginv v1 low ur inv0 subset_refl]
    have inv1: "cc_inv g old v ?st1"
      and m: "cc_measure g ?st1 \<le> cc_measure g (visited, cn, rest)" by simp_all
    have "cc_measure g (visited, cn, rest) < cc_measure g st"
      unfolding st Cons by (simp add: cc_measure_def)
    with m have "cc_measure g ?st1 < cc_measure g st" by simp
    from less.hyps[OF this inv1] obtain vis' cn' where
      f: "cc_loop g ?st1 = Some (Inr (vis', cn'))" "cc_inv g old v (vis', cn', [])" by blast
    have "cc_loop g st = cc_loop g ?st1"
      unfolding st Cons by (subst cc_loop.simps) (simp add: gn)
    with f show ?thesis by auto
  qed
qed

lemma co_invD:
  assumes "co_inv g v (visited, cs)"
  shows "\<And>x. x \<in> set visited \<Longrightarrow> 1 \<le> x \<and> x \<le> num_vertices g"
    "\<And>w. 1 \<le> w \<Longrightarrow> w < v \<Longrightarrow> w \<in> set visited"
    "set visited = (\<Union>c \<in> set cs. set (vertices c))"
    "distinct cs"
    "\<And>c c'. c \<in> set cs \<Longrightarrow> c' \<in> set cs \<Longrightarrow> c \<noteq> c' \<Longrightarrow>
       set (vertices c) \<inter> set (vertices c') = {}"
    "\<And>c. c \<in> set cs \<Longrightarrow> size c = int (length (vertices c)) \<and> sorted (vertices c) \<and>
       distinct (vertices c) \<and> vertices c \<noteq> [] \<and> hd (vertices c) < v"
    "sum_list (map size cs) = int (card (set visited))"
    "sorted_wrt (\<lambda>a b. hd (vertices a) < hd (vertices b)) cs"
  using assms unfolding co_inv_def prod.case by blast+

lemma co_invI:
  assumes "\<And>x. x \<in> set visited \<Longrightarrow> 1 \<le> x \<and> x \<le> num_vertices g"
    "\<And>w. 1 \<le> w \<Longrightarrow> w < v \<Longrightarrow> w \<in> set visited"
    "set visited = (\<Union>c \<in> set cs. set (vertices c))"
    "distinct cs"
    "\<And>c c'. c \<in> set cs \<Longrightarrow> c' \<in> set cs \<Longrightarrow> c \<noteq> c' \<Longrightarrow>
       set (vertices c) \<inter> set (vertices c') = {}"
    "\<And>c. c \<in> set cs \<Longrightarrow> size c = int (length (vertices c)) \<and> sorted (vertices c) \<and>
       distinct (vertices c) \<and> vertices c \<noteq> [] \<and> hd (vertices c) < v"
    "sum_list (map size cs) = int (card (set visited))"
    "sorted_wrt (\<lambda>a b. hd (vertices a) < hd (vertices b)) cs"
  shows "co_inv g v (visited, cs)"
  unfolding co_inv_def prod.case
  apply (intro conjI)
  using assms(1) apply blast
  using assms(2) apply blast
  using assms(3) apply blast
  using assms(4) apply blast
  using assms(5) apply blast
  using assms(6) apply blast
  using assms(7) apply blast
  using assms(8) apply blast
  done

lemma hd_sort_least:
  assumes "v \<in> set xs" "\<And>x. x \<in> set xs \<Longrightarrow> v \<le> x"
  shows "hd (sort xs) = (v::int)"
proof -
  from assms(1) have ne: "sort xs \<noteq> []" by (metis empty_iff list.set(1) set_sort)
  then obtain y ys where s: "sort xs = y # ys" by (cases "sort xs") auto
  have "sorted (y # ys)" using sorted_sort[of xs] s by simp
  moreover have "v \<in> set (y # ys)" using assms(1) s by (metis set_sort)
  ultimately have "y \<le> v" by auto
  moreover have "y \<in> set xs" using s by (metis list.set_intros(1) set_sort)
  then have "v \<le> y" by (rule assms(2))
  ultimately show ?thesis using s by simp
qed

lemma co_inv_skip:
  assumes "co_inv g v (visited, cs)" "v \<in> set visited"
  shows "co_inv g (v + 1) (visited, cs)"
proof -
  note I = co_invD[OF assms(1)]
  show ?thesis
  proof (rule co_invI)
    show "w \<in> set visited" if "1 \<le> w" "w < v + 1" for w
      using that I(2)[of w] assms(2) by (cases "w = v") auto
    show "size c = int (length (vertices c)) \<and> sorted (vertices c) \<and>
       distinct (vertices c) \<and> vertices c \<noteq> [] \<and> hd (vertices c) < v + 1" if "c \<in> set cs" for c
      using I(6)[OF that] by simp
  qed (use I in blast)+
qed

lemma co_inv_new:
  assumes inv: "co_inv g v (visited, cs)" and v: "1 \<le> v" "v \<le> num_vertices g"
    and nv: "v \<notin> set visited"
    and ci: "cc_inv g (set visited) v (visited', cn, [])"
  shows "co_inv g (v + 1) (visited', cs @ [\<lparr> size = int (length cn), vertices = sort cn \<rparr>])"
proof -
  let ?n = "num_vertices g"
  let ?c = "\<lparr> size = int (length cn), vertices = sort cn \<rparr>"
  note I = co_invD[OF inv] and J = cc_invD[OF ci]
  have hd: "hd (vertices ?c) = v" using hd_sort_least[of v cn] J(4,5) by simp
  have vs: "set (vertices ?c) = set cn" by simp
  have disj: "set (vertices c) \<inter> set cn = {}" if "c \<in> set cs" for c
    using that I(3) J(2) by auto
  have new: "?c \<notin> set cs"
  proof
    assume "?c \<in> set cs"
    from disj[OF this] J(4) show False by simp
  qed
  show ?thesis
  proof (rule co_invI)
    show "1 \<le> x \<and> x \<le> ?n" if "x \<in> set visited'" for x
      using that J(1) I(1)[of x] J(5)[of x] v by auto
    show "w \<in> set visited'" if "1 \<le> w" "w < v + 1" for w
      using that I(2)[of w] J(1,4) by (cases "w = v") auto
    show "set visited' = (\<Union>c \<in> set (cs @ [?c]). set (vertices c))"
      using J(1) I(3) by auto
    show "distinct (cs @ [?c])" using I(4) new by simp
    show "set (vertices c) \<inter> set (vertices c') = {}"
      if "c \<in> set (cs @ [?c])" "c' \<in> set (cs @ [?c])" "c \<noteq> c'" for c c'
    proof -
      from that(1,2) have "c \<in> set cs \<or> c = ?c" "c' \<in> set cs \<or> c' = ?c" by auto
      with that(3) consider "c \<in> set cs" "c' \<in> set cs" | "c \<in> set cs" "c' = ?c"
        | "c = ?c" "c' \<in> set cs"
        by blast
      then show ?thesis
      proof cases
        case 1
        then show ?thesis using I(5) that(3) by blast
      next
        case 2
        then show ?thesis using disj[of c] by simp
      next
        case 3
        then show ?thesis using disj[of c'] by auto
      qed
    qed
    show "size c = int (length (vertices c)) \<and> sorted (vertices c) \<and>
       distinct (vertices c) \<and> vertices c \<noteq> [] \<and> hd (vertices c) < v + 1"
      if "c \<in> set (cs @ [?c])" for c
    proof (cases "c = ?c")
      case True
      have "sort cn \<noteq> []" using J(4) by (metis empty_iff list.set(1) set_sort)
      with True hd J(3) show ?thesis by simp
    next
      case False
      with that have "c \<in> set cs" by simp
      from I(6)[OF this] show ?thesis by simp
    qed
    have "card (set visited') = card (set visited) + card (set cn)"
      unfolding J(1) using J(2) by (intro card_Un_disjoint) simp_all
    also have "card (set cn) = length cn" using J(3) by (rule distinct_card)
    finally show "sum_list (map size (cs @ [?c])) = int (card (set visited'))"
      using I(7) by simp
    show "sorted_wrt (\<lambda>a b. hd (vertices a) < hd (vertices b)) (cs @ [?c])"
      unfolding sorted_wrt_append using I(8) I(6) hd by auto
  qed
qed

lemma cc_outer_correct:
  assumes ginv: "graph_inv g"
  shows "co_inv g v (visited, cs) \<Longrightarrow> 1 \<le> v \<Longrightarrow> v \<le> num_vertices g + 1 \<Longrightarrow>
     \<exists>res visited'. cc_outer g [v..num_vertices g] (visited, cs) = Some (Inr res) \<and>
       co_inv g (num_vertices g + 1) (visited', res)"
proof (induction "nat (num_vertices g + 1 - v)" arbitrary: v visited cs)
  case 0
  then have "v = num_vertices g + 1" by simp
  with "0.prems"(1) show ?case by auto
next
  case (Suc k)
  let ?n = "num_vertices g"
  from Suc.hyps(2) Suc.prems have v: "1 \<le> v" "v \<le> ?n" by simp_all
  have up: "[v..?n] = v # [v + 1..?n]" using v by (simp add: upto_rec1)
  have k: "k = nat (?n + 1 - (v + 1))" using Suc.hyps(2) by simp
  have v1: "1 \<le> v + 1" "v + 1 \<le> ?n + 1" using v by simp_all
  show ?case
  proof (cases "v \<in> set visited")
    case True
    from Suc.hyps(1)[OF k co_inv_skip[OF Suc.prems(1) True] v1] True show ?thesis
      unfolding up by simp
  next
    case False
    have a: "set_add v visited = visited @ [v]" "set_add v [] = [v]"
      using False by (simp_all add: set_add_def)
    have low: "\<And>w. 1 \<le> w \<Longrightarrow> w < v \<Longrightarrow> w \<in> set visited"
      using co_invD(2)[OF Suc.prems(1)] by blast
    have "cc_inv g (set visited) v (visited @ [v], [v], [v])"
      by (rule cc_invI) (use False v in auto)
    from cc_loop_total[OF ginv v(1) low this] obtain vis' cn where
      r: "cc_loop g (visited @ [v], [v], [v]) = Some (Inr (vis', cn))"
      and ci: "cc_inv g (set visited) v (vis', cn, [])" by blast
    let ?cs = "cs @ [\<lparr> size = int (length cn), vertices = sort cn \<rparr>]"
    from Suc.hyps(1)[OF k co_inv_new[OF Suc.prems(1) v False ci] v1] obtain res visited' where
      "cc_outer g [v + 1..?n] (vis', ?cs) = Some (Inr res)" "co_inv g (?n + 1) (visited', res)"
      by blast
    then show ?thesis unfolding up using False r by (auto simp: a)
  qed
qed

lemma sum_list_insort_key:
  "sum_list (map h (insort_key f x xs)) = (h x :: int) + sum_list (map h xs)"
  by (induction xs) simp_all

lemma sum_list_sort_key: "sum_list (map h (sort_key f xs)) = (sum_list (map h xs) :: int)"
  by (induction xs) (simp_all add: sum_list_insort_key)

lemma insort_key_stable:
  fixes f :: "'a \<Rightarrow> int" and seed :: "'a \<Rightarrow> int"
  assumes "sorted_wrt (\<lambda>a b. f a < f b \<or> (f a = f b \<and> seed a < seed b)) ys"
    and "\<forall>y \<in> set ys. seed x < seed y"
  shows "sorted_wrt (\<lambda>a b. f a < f b \<or> (f a = f b \<and> seed a < seed b)) (insort_key f x ys)"
  using assms
proof (induction ys)
  case Nil
  then show ?case by simp
next
  case (Cons y ys)
  show ?case
  proof (cases "f x \<le> f y")
    case True
    have "f x < f z \<or> (f x = f z \<and> seed x < seed z)" if "z \<in> set (y # ys)" for z
    proof -
      have "f y \<le> f z" using that Cons.prems(1) by auto
      with True have "f x \<le> f z" by simp
      moreover have "seed x < seed z" using that Cons.prems(2) by auto
      ultimately show ?thesis by auto
    qed
    with True Cons.prems(1) show ?thesis by simp
  next
    case False
    from Cons.prems have "sorted_wrt (\<lambda>a b. f a < f b \<or> (f a = f b \<and> seed a < seed b)) ys"
      "\<forall>y \<in> set ys. seed x < seed y" by simp_all
    from Cons.IH[OF this] False Cons.prems(1) show ?thesis by (auto simp: set_insort_key)
  qed
qed

lemma sort_key_stable:
  fixes f :: "'a \<Rightarrow> int" and seed :: "'a \<Rightarrow> int"
  assumes "sorted_wrt (\<lambda>a b. seed a < seed b) xs"
  shows "sorted_wrt (\<lambda>a b. f a < f b \<or> (f a = f b \<and> seed a < seed b)) (sort_key f xs)"
  using assms
proof (induction xs)
  case Nil
  then show ?case by simp
next
  case (Cons x xs)
  from Cons.prems have "sorted_wrt (\<lambda>a b. seed a < seed b) xs" "\<forall>y \<in> set xs. seed x < seed y"
    by simp_all
  from insort_key_stable[OF Cons.IH[OF this(1)], of x] this(2) show ?case by simp
qed

text \<open>
  Claim C8. On every reachable graph \<open>get_connected_components\<close> returns a list of
  components in which every vertex of \<open>[1, N]\<close> lies in exactly one component; each
  component records the length of its vertex list, which is sorted, free of duplicates,
  not empty and within \<open>[1, N]\<close>; the sizes add up to \<open>N\<close>; sizes do not increase along
  the list; and of two components of equal size the one with the smaller least vertex,
  found first, comes first.
\<close>

theorem connected_components_partition:
  assumes "reachable g"
  shows "\<exists>cs. get_connected_components g = Some (Inr cs) \<and>
     (\<forall>v. 1 \<le> v \<and> v \<le> num_vertices g \<longrightarrow>
        (\<exists>!i. i < length cs \<and> v \<in> set (vertices (cs ! i)))) \<and>
     (\<forall>c \<in> set cs. size c = int (length (vertices c)) \<and> sorted (vertices c) \<and>
        distinct (vertices c) \<and> vertices c \<noteq> [] \<and>
        (\<forall>x \<in> set (vertices c). 1 \<le> x \<and> x \<le> num_vertices g)) \<and>
     sum_list (map size cs) = num_vertices g \<and>
     (\<forall>i j. i < j \<and> j < length cs \<longrightarrow>
        size (cs ! j) \<le> size (cs ! i) \<and>
        (size (cs ! i) = size (cs ! j) \<longrightarrow> hd (vertices (cs ! i)) < hd (vertices (cs ! j))))"
proof -
  let ?n = "num_vertices g"
  note ginv = reachable_inv[OF assms]
  from graph_invD(1)[OF ginv] have n: "0 < ?n" by (simp add: struct_ok_def)
  have "co_inv g 1 ([], [])" by (rule co_invI) simp_all
  from cc_outer_correct[OF ginv this] n obtain pre visited where
    r: "cc_outer g [1..?n] ([], []) = Some (Inr pre)" and inv: "co_inv g (?n + 1) (visited, pre)"
    by auto
  note I = co_invD[OF inv]
  let ?cs = "sorted_by_size_reverse pre"
  have run: "get_connected_components g = Some (Inr ?cs)"
    using r by (simp add: get_connected_components_def vertex_count_def range1_def)
  have set_cs: "set ?cs = set pre" and dist_cs: "distinct ?cs"
    using I(4) by (simp_all add: sorted_by_size_reverse_def)
  have vis: "set visited = {1..?n}"
  proof (intro set_eqI iffI)
    fix x assume "x \<in> set visited" with I(1)[of x] show "x \<in> {1..?n}" by simp
  next
    fix x assume "x \<in> {1..?n}" with I(2)[of x] show "x \<in> set visited" by simp
  qed
  have part: "\<exists>!i. i < length ?cs \<and> v \<in> set (vertices (?cs ! i))"
    if v: "1 \<le> v \<and> v \<le> ?n" for v
  proof -
    from v vis have "v \<in> set visited" by simp
    then have "v \<in> (\<Union>c \<in> set pre. set (vertices c))" unfolding I(3) .
    then obtain c where c: "c \<in> set pre" "v \<in> set (vertices c)" by blast
    from c(1) set_cs obtain i where i: "i < length ?cs" "?cs ! i = c"
      by (metis in_set_conv_nth)
    show ?thesis
    proof (rule ex1I[of _ i])
      show "i < length ?cs \<and> v \<in> set (vertices (?cs ! i))" using i c(2) by simp
    next
      fix j assume j: "j < length ?cs \<and> v \<in> set (vertices (?cs ! j))"
      then have "?cs ! j \<in> set pre" using set_cs nth_mem by blast
      with I(5)[OF this c(1)] j c(2) have "?cs ! j = c" by auto
      with i have "?cs ! j = ?cs ! i" by simp
      with nth_eq_iff_index_eq[OF dist_cs, of j i] i j show "j = i" by blast
    qed
  qed
  have each: "size c = int (length (vertices c)) \<and> sorted (vertices c) \<and>
        distinct (vertices c) \<and> vertices c \<noteq> [] \<and>
        (\<forall>x \<in> set (vertices c). 1 \<le> x \<and> x \<le> ?n)" if "c \<in> set ?cs" for c
  proof -
    from that set_cs have c: "c \<in> set pre" by simp
    have "set (vertices c) \<subseteq> {1..?n}" using c I(3) vis by auto
    with I(6)[OF c] show ?thesis by auto
  qed
  have total: "sum_list (map size ?cs) = ?n"
    unfolding sorted_by_size_reverse_def sum_list_sort_key using I(7) vis n by simp
  have "sorted_wrt (\<lambda>a b. - size a < - size b \<or>
          (- size a = - size b \<and> hd (vertices a) < hd (vertices b))) ?cs"
    unfolding sorted_by_size_reverse_def by (rule sort_key_stable[OF I(8)])
  then have nth: "\<And>i j. i < j \<Longrightarrow> j < length ?cs \<Longrightarrow>
      - size (?cs ! i) < - size (?cs ! j) \<or>
      (- size (?cs ! i) = - size (?cs ! j) \<and> hd (vertices (?cs ! i)) < hd (vertices (?cs ! j)))"
    unfolding sorted_wrt_iff_nth_less by blast
  have ord: "size (?cs ! j) \<le> size (?cs ! i) \<and>
        (size (?cs ! i) = size (?cs ! j) \<longrightarrow> hd (vertices (?cs ! i)) < hd (vertices (?cs ! j)))"
    if "i < j \<and> j < length ?cs" for i j
    using nth[of i j] that by linarith
  from run part each total ord show ?thesis by blast
qed

theorem connected_components_partition_witness:
  "reachable (example_graph AdjacencyList) \<and>
   get_connected_components (example_graph AdjacencyList) =
     Some (Inr [\<lparr> size = 3, vertices = [1, 2, 3] \<rparr>, \<lparr> size = 2, vertices = [4, 5] \<rparr>]) \<and>
   (\<exists>cs. get_connected_components (example_graph AdjacencyList) = Some (Inr cs) \<and>
     (\<exists>!i. i < length cs \<and> 4 \<in> set (vertices (cs ! i))) \<and>
     sum_list (map size cs) = 5)"
proof -
  have e: "get_connected_components (example_graph AdjacencyList) =
     Some (Inr [\<lparr> size = 3, vertices = [1, 2, 3] \<rparr>, \<lparr> size = 2, vertices = [4, 5] \<rparr>])"
    by code_simp
  from connected_components_partition[OF reachable_example_graph, of AdjacencyList]
  have "\<exists>cs. get_connected_components (example_graph AdjacencyList) = Some (Inr cs) \<and>
     (\<exists>!i. i < length cs \<and> 4 \<in> set (vertices (cs ! i))) \<and>
     sum_list (map size cs) = 5"
    unfolding num_vertices_example_graph by fastforce
  with e reachable_example_graph[of AdjacencyList] show ?thesis by blast
qed

end
